theory Spec2Isabelle
  imports Complex_Main
begin

section \<open>A Raft node (index.js): data model\<close>

text \<open>
  The node of index.js is one JavaScript object whose fields are mutated by its methods and
  by the listeners that \<open>initialize\<close> registers on the node's own event emitter. The
  embedding passes the node explicitly: every method takes the node last and returns the
  completion of the call (a thrown error or the returned value) with the node as the call
  left it. A throw keeps whatever was assigned before it, as in JavaScript.
\<close>

text \<open>\<open>Node.LEADER = 1\<close>, \<open>Node.CANDIDATE = 2\<close>, \<open>Node.FOLLOWER = 3\<close>, \<open>Node.STOPPED = 4\<close>.\<close>

datatype role = LEADER | CANDIDATE | FOLLOWER | STOPPED

text \<open>The object handed to \<open>write\<close> by the vote handler, \<open>{granted: b}\<close>; the same shape is
  read back as \<open>data.payload\<close> of a \<open>voted\<close> packet.\<close>

record reply =
  granted :: bool

text \<open>
  The packet object: \<open>state\<close>, \<open>term\<close>, \<open>name\<close>, \<open>data\<close>, \<open>type\<close> as built by \<open>packet\<close>, and the
  \<open>payload\<close> that the \<open>voted\<close> handler reads. \<open>term\<close> is a number and \<open>name\<close> a string (the
  coercions JavaScript applies to other types are not modelled). \<open>p_state\<close> is \<open>None\<close> when
  the field is absent or is not one of the four role constants; \<open>p_payload\<close> is \<open>None\<close>
  when the field is absent (\<open>undefined\<close>) or \<open>null\<close>; \<open>p_type\<close> is compared with the literals
  of the \<open>switch\<close> only.
\<close>

record envelope =
  p_state :: "role option"
  p_term :: int
  p_name :: string
  p_data :: "nat option"
  p_type :: string
  p_payload :: "reply option"

text \<open>A value passed to \<open>read\<close>. \<open>typeof\<close> is \<open>'object'\<close> for \<open>JNull\<close> and \<open>JObject\<close> only.\<close>

datatype jsval =
    JUndefined
  | JNull
  | JBoolean bool
  | JNumber int
  | JString string
  | JObject envelope

datatype error = TypeError | TimerError

text \<open>The two timer names the node uses, \<open>'heartbeat'\<close> and \<open>'election'\<close>.\<close>

datatype timer = Heartbeat | Election

text \<open>
  What an observer attached to the node sees, in order: every \<open>emit\<close> other than \<open>'data'\<close>
  with its arguments, and every call of \<open>write\<close> with its arguments.
\<close>

datatype effect =
    TermChange int int
  | LeaderChange "string option" "string option"
  | StateChange "role option" "role option"
  | HeartbeatTimeout
  | VoteEvent envelope bool
  | WriteCall string reply

text \<open>\<open>this.write\<close> and \<open>this.read\<close> are found on the prototype until \<open>end\<close> assigns
  \<open>null\<close> to them on the object itself.\<close>

datatype slot = Inherited | Nulled

text \<open>
  The node. \<open>votes_for\<close> and \<open>votes_granted\<close> are \<open>this.votes.for\<close> and \<open>this.votes.granted\<close>;
  \<open>None\<close> stands for \<open>null\<close> in \<open>votes_for\<close>, \<open>leader\<close>, \<open>state\<close> and \<open>timers\<close>. \<open>timers\<close> holds
  the names with a pending timeout; the durations (\<open>election\<close>, \<open>beat\<close>, \<open>threshold\<close> and the
  random \<open>timeout\<close>) are left out, a timer's expiry being an input of the model. \<open>nodes\<close> is
  the array \<open>quorum\<close> reads; index.js never assigns it (it is attached by the code that
  knows the cluster), so it starts absent. \<open>listening\<close> says whether the three listeners of
  \<open>initialize\<close> are registered, and \<open>log\<close> collects the effects.
\<close>

record node =
  votes_for :: "string option"
  votes_granted :: nat
  name :: string
  timers :: "timer set option"
  state :: "role option"
  leader :: "string option"
  "term" :: int
  nodes :: "string list option"
  write_slot :: slot
  read_slot :: slot
  listening :: bool
  log :: "effect list"

type_synonym 'a outcome = "(error + 'a) \<times> node"

definition andthen :: "'a outcome \<Rightarrow> (node \<Rightarrow> 'b outcome) \<Rightarrow> 'b outcome" where
  "andthen r f = (case r of (Inl e, n) \<Rightarrow> (Inl e, n) | (Inr x, n) \<Rightarrow> f n)"

definition observe :: "effect \<Rightarrow> node \<Rightarrow> node" where
  "observe e n = n\<lparr>log := log n @ [e]\<rparr>"

text \<open>JavaScript truthiness of a value that is \<open>null\<close> or a string.\<close>

definition truthy :: "string option \<Rightarrow> bool" where
  "truthy v = (case v of None \<Rightarrow> False | Some s \<Rightarrow> s \<noteq> [])"


section \<open>The timer registry\<close>

text \<open>Modelled from the spec: the tick-tock registry behind \<open>this.timers\<close> is not part of
  index.js. \<open>active(name)\<close>: is there a pending timer by this name.\<close>

definition tick_active :: "timer \<Rightarrow> timer set \<Rightarrow> bool" where
  "tick_active t ts = (t \<in> ts)"

text \<open>Modelled from the spec: \<open>adjust(name, duration)\<close> resets an already scheduled timer to
  a new duration without invoking its callback; the set of pending names is unchanged.\<close>

definition tick_adjust :: "timer \<Rightarrow> timer set \<Rightarrow> timer set" where
  "tick_adjust t ts = ts"

text \<open>Modelled from the spec: \<open>set(name, callback, duration)\<close>: if a timer with this name
  exists, this is an error; otherwise the callback is scheduled to fire once.\<close>

definition tick_setTimeout :: "timer \<Rightarrow> timer set \<Rightarrow> error + timer set" where
  "tick_setTimeout t ts = (if t \<in> ts then Inl TimerError else Inr (insert t ts))"

text \<open>Modelled from the spec: \<open>clear()\<close> cancels all timers owned by the registry.\<close>

definition tick_clear :: "timer set \<Rightarrow> timer set" where
  "tick_clear ts = {}"


section \<open>Methods and listeners\<close>

text \<open>The \<open>'term change'\<close> listener of \<open>initialize\<close>.\<close>

definition term_change_listener :: "node \<Rightarrow> node" where
  "term_change_listener n = n\<lparr>votes_for := None, votes_granted := 0\<rparr>"

text \<open>\<open>heartbeat(duration)\<close>: adjust the pending heartbeat timer, or schedule one.\<close>

definition heartbeat :: "nat option \<Rightarrow> node \<Rightarrow> unit outcome" where
  "heartbeat duration n =
     (case timers n of
        None \<Rightarrow> (Inl TypeError, n)
      | Some ts \<Rightarrow>
          if tick_active Heartbeat ts then (Inr (), n\<lparr>timers := Some (tick_adjust Heartbeat ts)\<rparr>)
          else (case tick_setTimeout Heartbeat ts of
                  Inl e \<Rightarrow> (Inl e, n)
                | Inr ts' \<Rightarrow> (Inr (), n\<lparr>timers := Some ts'\<rparr>)))"

text \<open>The \<open>'state change'\<close> listener of \<open>initialize\<close>: \<open>this.timers.clear(); this.heartbeat()\<close>.\<close>

definition state_change_listener :: "node \<Rightarrow> unit outcome" where
  "state_change_listener n =
     (case timers n of
        None \<Rightarrow> (Inl TypeError, n)
      | Some ts \<Rightarrow> heartbeat None (n\<lparr>timers := Some (tick_clear ts)\<rparr>))"

text \<open>
  The argument of \<open>change\<close>: an object literal with some of the keys \<open>term\<close>, \<open>leader\<close>,
  \<open>state\<close>; \<open>None\<close> is a key that is not \<open>in changed\<close>.
\<close>

record changed =
  c_term :: "int option"
  c_leader :: "string option"
  c_state :: "role option"

text \<open>One round of the loop of \<open>change\<close> for each of \<open>['term', 'leader', 'state']\<close>: assign
  when the key is present and its value differs, then emit, which runs the listener.\<close>

definition change_term :: "changed \<Rightarrow> node \<Rightarrow> node" where
  "change_term c n =
     (case c_term c of
        None \<Rightarrow> n
      | Some t \<Rightarrow>
          if t \<noteq> term n then
            (let n1 = observe (TermChange t (term n)) (n\<lparr>term := t\<rparr>)
             in if listening n1 then term_change_listener n1 else n1)
          else n)"

definition change_leader :: "changed \<Rightarrow> node \<Rightarrow> node" where
  "change_leader c n =
     (case c_leader c of
        None \<Rightarrow> n
      | Some l \<Rightarrow>
          if Some l \<noteq> leader n then observe (LeaderChange (Some l) (leader n)) (n\<lparr>leader := Some l\<rparr>)
          else n)"

definition change_state :: "changed \<Rightarrow> node \<Rightarrow> unit outcome" where
  "change_state c n =
     (case c_state c of
        None \<Rightarrow> (Inr (), n)
      | Some s \<Rightarrow>
          if Some s \<noteq> state n then
            (let n1 = observe (StateChange (Some s) (state n)) (n\<lparr>state := Some s\<rparr>)
             in if listening n1 then state_change_listener n1 else (Inr (), n1))
          else (Inr (), n))"

definition change :: "changed \<Rightarrow> node \<Rightarrow> unit outcome" where
  "change c n = change_state c (change_leader c (change_term c n))"

text \<open>\<open>quorum\<close>: \<open>Math.ceil(this.nodes.length / 2) + 1\<close>.\<close>

definition quorum :: "node \<Rightarrow> error + nat" where
  "quorum n =
     (case nodes n of
        None \<Rightarrow> Inl TypeError
      | Some ps \<Rightarrow> Inr (nat \<lceil>real (length ps) / 2\<rceil> + 1))"

text \<open>
  \<open>x + 1\<close> on a JavaScript number that holds the integer \<open>x\<close>. The sum is exact while
  \<open>-2^53 \<le> x < 2^53\<close>. Beyond that the doubles are two or more apart and the sum is rounded
  to the nearest of them, a tie going to the one with the even significand: between \<open>2^53\<close>
  and \<open>2^54\<close> in magnitude the doubles are the even integers and \<open>x + 1\<close> is a tie, so the
  result is \<open>x\<close> when \<open>x div 2\<close> is even and \<open>x + 2\<close> otherwise (\<open>2^53 + 1\<close> is \<open>2^53\<close>, and
  \<open>2^53 + 2 + 1\<close> is \<open>2^53 + 4\<close>); from \<open>2^54\<close> on in magnitude the result is \<open>x\<close>. An
  odd integer beyond \<open>2^53\<close> in magnitude is no double and cannot be a term in JavaScript;
  the type \<open>int\<close> has them, and the theorems hold for them as well.
\<close>

definition js_inc :: "int \<Rightarrow> int" where
  "js_inc x =
     (if - (2 ^ 53) \<le> x \<and> x < 2 ^ 53 then x + 1
      else if - (2 ^ 54) < x \<and> x < 2 ^ 54 then (if even (x div 2) then x else x + 2)
      else x)"

text \<open>\<open>promote\<close>; \<open>this.term + 1\<close> is an addition of doubles.\<close>

definition promote :: "node \<Rightarrow> unit outcome" where
  "promote n =
     andthen
       (change \<lparr>c_term = Some (js_inc (term n)), c_leader = Some [], c_state = Some CANDIDATE\<rparr> n)
       (\<lambda>n1.
          let n2 = n1\<lparr>votes_for := Some (name n1), votes_granted := 1\<rparr>
          in (case timers n2 of
                None \<Rightarrow> (Inl TypeError, n2)
              | Some ts \<Rightarrow>
                  (case tick_setTimeout Election ts of
                     Inl e \<Rightarrow> (Inl e, n2)
                   | Inr ts' \<Rightarrow> (Inr (), n2\<lparr>timers := Some ts'\<rparr>))))"

text \<open>\<open>write\<close> returns false; the call is entered in the log.\<close>

definition "write" :: "string \<Rightarrow> reply \<Rightarrow> node \<Rightarrow> bool outcome" where
  "write kind r n = (Inr False, observe (WriteCall kind r) n)"

text \<open>The method call \<open>this.write(...)\<close>: a \<open>TypeError\<close> when the property is \<open>null\<close>.\<close>

definition call_write :: "string \<Rightarrow> reply \<Rightarrow> node \<Rightarrow> bool outcome" where
  "call_write kind r n =
     (case write_slot n of Nulled \<Rightarrow> (Inl TypeError, n) | Inherited \<Rightarrow> write kind r n)"

text \<open>\<open>packet(type, data)\<close>.\<close>

definition packet :: "string \<Rightarrow> nat option \<Rightarrow> node \<Rightarrow> envelope" where
  "packet kind body n =
     \<lparr>p_state = state n, p_term = term n, p_name = name n, p_data = body, p_type = kind,
      p_payload = None\<rparr>"

text \<open>\<open>broadcast(type, data)\<close>: the packet is built and bound to a local variable; the
  function ends there.\<close>

definition broadcast :: "string \<Rightarrow> nat option \<Rightarrow> node \<Rightarrow> unit outcome" where
  "broadcast kind body n = (let p = packet kind body n in (Inr (), n))"

text \<open>The \<open>'data'\<close> listener \<open>incoming\<close>, \<open>case 'vote'\<close>. \<open>refuse\<close> is
  \<open>this.emit('vote', data, false); return this.write('vote', { granted: false })\<close>, which
  occurs twice; \<open>grant\<close> is the last three statements of the case.\<close>

definition refuse :: "envelope \<Rightarrow> node \<Rightarrow> unit outcome" where
  "refuse d n =
     andthen (call_write ''vote'' \<lparr>granted = False\<rparr> (observe (VoteEvent d False) n))
       (\<lambda>n'. (Inr (), n'))"

definition grant :: "envelope \<Rightarrow> node \<Rightarrow> unit outcome" where
  "grant d n =
     andthen
       (call_write ''vote'' \<lparr>granted = True\<rparr>
          (observe (VoteEvent d True) (n\<lparr>votes_for := Some (p_name d)\<rparr>)))
       (\<lambda>n'. (Inr (), n'))"

definition incoming_vote :: "envelope \<Rightarrow> node \<Rightarrow> unit outcome" where
  "incoming_vote d n =
     (if p_term d < term n then refuse d n
      else if p_term d > term n then
        andthen (change \<lparr>c_term = Some (p_term d), c_leader = None, c_state = None\<rparr> n) (grant d)
      else if truthy (votes_for n) \<and> votes_for n \<noteq> Some (p_name d) then refuse d n
      else grant d n)"

text \<open>\<open>case 'voted'\<close>.\<close>

definition incoming_voted :: "envelope \<Rightarrow> node \<Rightarrow> unit outcome" where
  "incoming_voted d n =
     (if state n \<noteq> Some CANDIDATE then (Inr (), n)
      else
        (case p_payload d of
           None \<Rightarrow> (Inl TypeError, n)
         | Some pl \<Rightarrow>
             (let n1 = (if granted pl \<and> p_term d = term n
                        then n\<lparr>votes_granted := votes_granted n + 1\<rparr> else n)
              in andthen
                   (if p_term d > term n1
                    then change \<lparr>c_term = Some (p_term d), c_leader = None, c_state = None\<rparr> n1
                    else (Inr (), n1))
                   (\<lambda>n2.
                      case quorum n2 of
                        Inl e \<Rightarrow> (Inl e, n2)
                      | Inr q \<Rightarrow>
                          if votes_granted n2 \<ge> q then
                            change \<lparr>c_term = None, c_leader = Some (name n2), c_state = Some LEADER\<rparr> n2
                          else (Inr (), n2)))))"

text \<open>The \<open>switch (data.type)\<close>.\<close>

definition dispatch :: "envelope \<Rightarrow> node \<Rightarrow> unit outcome" where
  "dispatch d n =
     (if p_type d = ''heartbeat'' then
        (if p_state d = Some LEADER then heartbeat (p_data d) n else (Inr (), n))
      else if p_type d = ''vote'' then incoming_vote d n
      else if p_type d = ''voted'' then incoming_voted d n
      else (Inr (), n))"

text \<open>The recognition of a sender that claims to be leader, then the switch.\<close>

definition recognise :: "envelope \<Rightarrow> node \<Rightarrow> unit outcome" where
  "recognise d n =
     (if p_state d = Some LEADER \<and> state n \<noteq> Some FOLLOWER then
        andthen (change \<lparr>c_term = None, c_leader = None, c_state = Some FOLLOWER\<rparr> n) (dispatch d)
      else dispatch d n)"

text \<open>\<open>incoming(data)\<close>: the \<open>typeof\<close> test, the comparison of terms, then the rest. Reading
  \<open>data.term\<close> of \<open>null\<close> throws.\<close>

definition incoming :: "jsval \<Rightarrow> node \<Rightarrow> unit outcome" where
  "incoming v n =
     (case v of
        JObject d \<Rightarrow>
          if p_term d > term n then
            andthen (change \<lparr>c_term = Some (p_term d), c_leader = None, c_state = Some FOLLOWER\<rparr> n)
              (recognise d)
          else if p_term d < term n then (Inr (), n)
          else recognise d n
      | JNull \<Rightarrow> (Inl TypeError, n)
      | JUndefined \<Rightarrow> (Inr (), n)
      | JBoolean b \<Rightarrow> (Inr (), n)
      | JNumber i \<Rightarrow> (Inr (), n)
      | JString s \<Rightarrow> (Inr (), n))"

text \<open>\<open>read(packet)\<close>: \<open>this.emit('data', packet)\<close>, which is true when a listener ran.\<close>

definition read :: "jsval \<Rightarrow> node \<Rightarrow> bool outcome" where
  "read v n =
     (if listening n then andthen (incoming v n) (\<lambda>n'. (Inr True, n')) else (Inr False, n))"

definition call_read :: "jsval \<Rightarrow> node \<Rightarrow> bool outcome" where
  "call_read v n =
     (case read_slot n of Nulled \<Rightarrow> (Inl TypeError, n) | Inherited \<Rightarrow> read v n)"

text \<open>\<open>end()\<close>.\<close>

definition "end" :: "node \<Rightarrow> bool outcome" where
  "end n =
     (if state n = None then (Inr False, n)
      else
        (case timers n of
           None \<Rightarrow> (Inl TypeError, n)
         | Some ts \<Rightarrow>
             (Inr True,
              n\<lparr>listening := False, timers := None, state := None,
                write_slot := Nulled, read_slot := Nulled\<rparr>)))"

text \<open>The constructor, given \<open>options.name\<close> (empty when absent) and the string \<open>UUID()\<close>
  would return. It does not start a timer.\<close>

definition Node :: "string \<Rightarrow> string \<Rightarrow> node" where
  "Node opt_name uuid =
     \<lparr>votes_for = None, votes_granted = 0,
      name = (if opt_name \<noteq> [] then opt_name else uuid),
      timers = Some {}, state = Some FOLLOWER, leader = None, term = 0, nodes = None,
      write_slot = Inherited, read_slot = Inherited, listening = True, log = []\<rparr>"


section \<open>Timer expiry and runs\<close>

text \<open>The callback that \<open>heartbeat\<close> schedules.\<close>

definition heartbeat_expired :: "node \<Rightarrow> unit outcome" where
  "heartbeat_expired n =
     (if state n \<noteq> Some LEADER then promote (observe HeartbeatTimeout n)
      else broadcast ''heartbeat'' None n)"

text \<open>Modelled from the spec: the registry's firing of a timer is not part of index.js. A
  pending timer fires once: it leaves the registry and its callback runs (\<open>this.promote\<close> for
  the election timer); a name that is not pending does nothing.\<close>

definition expire :: "timer \<Rightarrow> node \<Rightarrow> unit outcome" where
  "expire t n =
     (case timers n of
        None \<Rightarrow> (Inr (), n)
      | Some ts \<Rightarrow>
          if tick_active t ts then
            (let n1 = n\<lparr>timers := Some (ts - {t})\<rparr>
             in (case t of Heartbeat \<Rightarrow> heartbeat_expired n1 | Election \<Rightarrow> promote n1))
          else (Inr (), n))"

text \<open>What reaches a node from outside: a value given to \<open>node.read\<close>, or a timer expiry.\<close>

datatype input = Packet jsval | Timeout timer

definition step :: "input \<Rightarrow> node \<Rightarrow> node" where
  "step i n = (case i of Packet v \<Rightarrow> snd (call_read v n) | Timeout t \<Rightarrow> snd (expire t n))"

fun run :: "input list \<Rightarrow> node \<Rightarrow> node" where
  "run [] n = n"
| "run (i # is) n = run is (step i n)"


section \<open>Auxiliary predicates and example values\<close>

text \<open>Whether a call of \<open>change\<close> assigns the field: the key is present and its value
  differs from the current one.\<close>

definition term_changes :: "changed \<Rightarrow> node \<Rightarrow> bool" where
  "term_changes c n = (case c_term c of None \<Rightarrow> False | Some t \<Rightarrow> t \<noteq> term n)"

definition leader_changes :: "changed \<Rightarrow> node \<Rightarrow> bool" where
  "leader_changes c n = (case c_leader c of None \<Rightarrow> False | Some l \<Rightarrow> Some l \<noteq> leader n)"

definition state_changes :: "changed \<Rightarrow> node \<Rightarrow> bool" where
  "state_changes c n = (case c_state c of None \<Rightarrow> False | Some s \<Rightarrow> Some s \<noteq> state n)"

text \<open>Whether the tally that the \<open>voted\<close> handler compares reaches \<open>quorum\<close>, for a packet
  of the node's own term.\<close>

definition wins :: "envelope \<Rightarrow> node \<Rightarrow> bool" where
  "wins d n =
     (case (p_payload d, nodes n) of
        (Some pl, Some ps) \<Rightarrow>
          (length ps + 1) div 2 + 1 \<le> votes_granted n + (if granted pl then 1 else 0)
      | _ \<Rightarrow> False)"

text \<open>A node named \<open>n1\<close> that knows the peers \<open>ps\<close> and has promoted itself once: a
  candidate of term 1 with its own vote.\<close>

definition candidate :: "string list \<Rightarrow> node" where
  "candidate ps = snd (promote ((Node ''n1'' ''uuid'')\<lparr>nodes := Some ps\<rparr>))"

text \<open>A granted reply to a solicitation of term 1, as it comes back from peer \<open>a\<close>.\<close>

definition voted_yes :: envelope where
  "voted_yes =
     \<lparr>p_state = Some FOLLOWER, p_term = 1, p_name = ''a'', p_data = None, p_type = ''voted'',
      p_payload = Some \<lparr>granted = True\<rparr>\<rparr>"

text \<open>A node at term 5 and a vote solicitation of term 3.\<close>

definition at_term_5 :: node where
  "at_term_5 = (Node ''n1'' ''uuid'')\<lparr>term := 5\<rparr>"

definition stale_vote :: envelope where
  "stale_vote =
     \<lparr>p_state = Some CANDIDATE, p_term = 3, p_name = ''X'', p_data = None, p_type = ''vote'',
      p_payload = None\<rparr>"

text \<open>The candidate of two peers after the granted reply: elected leader, its heartbeat
  timer pending.\<close>

definition elected :: node where
  "elected = snd (call_read (JObject voted_yes) (candidate [''a'', ''b'']))"

text \<open>A \<open>voted\<close> packet without \<open>payload\<close>, as \<open>packet\<close> itself builds packets.\<close>

definition voted_bare :: envelope where
  "voted_bare =
     \<lparr>p_state = Some FOLLOWER, p_term = 1, p_name = ''a'', p_data = None, p_type = ''voted'',
      p_payload = None\<rparr>"

text \<open>A follower of term 4 that voted for \<open>A\<close>, and a packet of term 7.\<close>

definition voted_for_A :: node where
  "voted_for_A = (Node ''n1'' ''uuid'')\<lparr>term := 4, votes_for := Some ''A'', votes_granted := 2\<rparr>"

definition to_term_7 :: changed where
  "to_term_7 = \<lparr>c_term = Some 7, c_leader = None, c_state = Some FOLLOWER\<rparr>"

text \<open>The packets of the \<open>'vote'\<close> events emitted with \<open>true\<close>, in the order of the log: the
  solicitations the node granted.\<close>

fun granted_votes :: "effect list \<Rightarrow> envelope list" where
  "granted_votes [] = []"
| "granted_votes (VoteEvent d True # es) = d # granted_votes es"
| "granted_votes (e # es) = granted_votes es"

text \<open>What one input does to the term, the vote and the granted solicitations: the term does
  not fall; within a term that \<open>promote\<close> would leave behind, a vote for a non-empty name
  stays; a solicitation granted by this input carries the resulting term and its sender has
  the vote.\<close>

definition vstep :: "node \<Rightarrow> node \<Rightarrow> bool" where
  "vstep n n' \<longleftrightarrow>
     term n \<le> term n' \<and>
     (term n' = term n \<and> truthy (votes_for n) \<and> js_inc (term n) \<noteq> term n
        \<longrightarrow> votes_for n' = votes_for n) \<and>
     (\<forall>g \<in> set (granted_votes (log n')).
        g \<in> set (granted_votes (log n)) \<or> (p_term g = term n' \<and> votes_for n' = Some (p_name g)))"

text \<open>The invariant of a run: a granted solicitation is of the current term or an earlier
  one; one of the current term with a non-empty name names the holder of the vote; any two
  of one term with non-empty names have the same name; the last two for the terms that
  \<open>promote\<close> would leave behind.\<close>

definition vote_inv :: "node \<Rightarrow> bool" where
  "vote_inv n \<longleftrightarrow>
     (\<forall>g \<in> set (granted_votes (log n)).
        p_term g \<le> term n \<and>
        (p_term g = term n \<and> p_name g \<noteq> [] \<and> js_inc (p_term g) \<noteq> p_term g
           \<longrightarrow> votes_for n = Some (p_name g))) \<and>
     (\<forall>a \<in> set (granted_votes (log n)). \<forall>b \<in> set (granted_votes (log n)).
        p_term a = p_term b \<and> p_name a \<noteq> [] \<and> p_name b \<noteq> [] \<and> js_inc (p_term a) \<noteq> p_term a
          \<longrightarrow> p_name a = p_name b)"

text \<open>A node between construction and \<open>end\<close>: listeners registered, \<open>read\<close> and \<open>write\<close> on
  the prototype, a timer registry.\<close>

definition live :: "node \<Rightarrow> bool" where
  "live n \<longleftrightarrow> listening n \<and> read_slot n = Inherited \<and> write_slot n = Inherited \<and> timers n \<noteq> None"

text \<open>The four facts of \<open>live\<close> are the same in both nodes.\<close>

definition steady :: "node \<Rightarrow> node \<Rightarrow> bool" where
  "steady n n' \<longleftrightarrow>
     listening n' = listening n \<and> read_slot n' = read_slot n \<and> write_slot n' = write_slot n \<and>
     (timers n' = None) = (timers n = None)"

text \<open>A vote solicitation of term 4 from the candidate named \<open>x\<close>, and two of them in a row.\<close>

definition vote_from :: "string \<Rightarrow> envelope" where
  "vote_from x =
     \<lparr>p_state = Some CANDIDATE, p_term = 4, p_name = x, p_data = None, p_type = ''vote'',
      p_payload = None\<rparr>"

definition two_votes :: "input list" where
  "two_votes = [Packet (JObject (vote_from ''A'')), Packet (JObject (vote_from ''B''))]"

text \<open>A heartbeat from a leader and a vote solicitation, both of term 7.\<close>

definition heartbeat_7 :: envelope where
  "heartbeat_7 =
     \<lparr>p_state = Some LEADER, p_term = 7, p_name = ''L'', p_data = None, p_type = ''heartbeat'',
      p_payload = None\<rparr>"

definition vote_7 :: envelope where
  "vote_7 =
     \<lparr>p_state = Some CANDIDATE, p_term = 7, p_name = ''B'', p_data = None, p_type = ''vote'',
      p_payload = None\<rparr>"

text \<open>The invariant of the timers: the listeners are registered, there is a registry, and
  the election timer is pending only on a candidate.\<close>

definition timer_inv :: "node \<Rightarrow> bool" where
  "timer_inv n \<longleftrightarrow>
     listening n \<and>
     (case timers n of None \<Rightarrow> False | Some ts \<Rightarrow> Election \<notin> ts \<or> state n = Some CANDIDATE)"

text \<open>A vote solicitation and a leader's heartbeat of term \<open>2^53\<close>.\<close>

definition big_vote :: "string \<Rightarrow> envelope" where
  "big_vote x =
     \<lparr>p_state = Some CANDIDATE, p_term = 2 ^ 53, p_name = x, p_data = None, p_type = ''vote'',
      p_payload = None\<rparr>"

definition big_heartbeat :: envelope where
  "big_heartbeat =
     \<lparr>p_state = Some LEADER, p_term = 2 ^ 53, p_name = ''L'', p_data = None,
      p_type = ''heartbeat'', p_payload = None\<rparr>"


section \<open>Basic facts\<close>

lemmas eval_defs =
  Node_def promote_def change_def change_term_def change_leader_def change_state_def
  observe_def term_change_listener_def state_change_listener_def heartbeat_def tick_active_def
  tick_adjust_def tick_setTimeout_def tick_clear_def quorum_def incoming_def recognise_def
  dispatch_def incoming_vote_def incoming_voted_def refuse_def grant_def call_write_def write_def
  read_def call_read_def truthy_def end_def expire_def heartbeat_expired_def broadcast_def
  packet_def step_def js_inc_def Let_def

lemma andthen_simps [simp]:
  "andthen (Inl e, n) f = (Inl e, n)"
  "andthen (Inr x, n) f = f n"
  by (simp_all add: andthen_def)

lemma snd_andthen: "snd (andthen r f) = (if isl (fst r) then snd r else snd (f (snd r)))"
  by (cases r; cases "fst r") (auto simp: andthen_def)

lemma isl_andthen: "isl (fst (andthen r f)) = (isl (fst r) \<or> isl (fst (f (snd r))))"
  by (cases r; cases "fst r") (auto simp: andthen_def)

lemma js_inc_ge: "x \<le> js_inc x"
  by (simp add: js_inc_def)

lemma js_inc_exact: "- (2 ^ 53) \<le> x \<Longrightarrow> x < 2 ^ 53 \<Longrightarrow> js_inc x = x + 1"
  by (simp add: js_inc_def)

lemma quorum_closed: "nodes n = Some ps \<Longrightarrow> quorum n = Inr ((length ps + 1) div 2 + 1)"
  unfolding quorum_def by (simp; linarith)

lemma snd_heartbeat:
  "snd (heartbeat d n) = n\<lparr>timers := map_option (insert Heartbeat) (timers n)\<rparr>"
  by (auto simp: heartbeat_def tick_active_def tick_adjust_def tick_setTimeout_def insert_absorb
      split: option.splits)

lemma isl_heartbeat: "isl (fst (heartbeat d n)) = (timers n = None)"
  by (auto simp: heartbeat_def tick_active_def tick_adjust_def tick_setTimeout_def
      split: option.splits)

lemma snd_state_change_listener:
  "snd (state_change_listener n) = n\<lparr>timers := map_option (\<lambda>ts. {Heartbeat}) (timers n)\<rparr>"
  by (auto simp: state_change_listener_def snd_heartbeat tick_clear_def split: option.splits)

lemma isl_state_change_listener: "isl (fst (state_change_listener n)) = (timers n = None)"
  by (auto simp: state_change_listener_def isl_heartbeat split: option.splits)

lemma change_term_eq:
  "change_term c n =
     (if term_changes c n then
        n\<lparr>term := the (c_term c),
          log := log n @ [TermChange (the (c_term c)) (term n)],
          votes_for := (if listening n then None else votes_for n),
          votes_granted := (if listening n then 0 else votes_granted n)\<rparr>
      else n)"
  by (auto simp: change_term_def term_changes_def observe_def term_change_listener_def Let_def
      split: option.splits)

lemma change_leader_eq:
  "change_leader c n =
     (if leader_changes c n then
        n\<lparr>leader := c_leader c, log := log n @ [LeaderChange (c_leader c) (leader n)]\<rparr>
      else n)"
  by (auto simp: change_leader_def leader_changes_def observe_def split: option.splits)

lemma snd_change_state:
  "snd (change_state c n) =
     (if state_changes c n then
        n\<lparr>state := c_state c, log := log n @ [StateChange (c_state c) (state n)],
          timers := (if listening n then map_option (\<lambda>ts. {Heartbeat}) (timers n) else timers n)\<rparr>
      else n)"
  by (auto simp: change_state_def state_changes_def observe_def snd_state_change_listener Let_def
      split: option.splits)

lemma isl_change_state:
  "isl (fst (change_state c n)) = (state_changes c n \<and> listening n \<and> timers n = None)"
  by (auto simp: change_state_def state_changes_def observe_def isl_state_change_listener Let_def
      split: option.splits)

lemma change_fields:
  "term (snd (change c n)) = (case c_term c of None \<Rightarrow> term n | Some t \<Rightarrow> t)"
  "leader (snd (change c n)) = (case c_leader c of None \<Rightarrow> leader n | Some l \<Rightarrow> Some l)"
  "state (snd (change c n)) = (case c_state c of None \<Rightarrow> state n | Some s \<Rightarrow> Some s)"
  "name (snd (change c n)) = name n"
  "nodes (snd (change c n)) = nodes n"
  "write_slot (snd (change c n)) = write_slot n"
  "read_slot (snd (change c n)) = read_slot n"
  "listening (snd (change c n)) = listening n"
  "votes_for (snd (change c n)) = (if term_changes c n \<and> listening n then None else votes_for n)"
  "votes_granted (snd (change c n)) = (if term_changes c n \<and> listening n then 0 else votes_granted n)"
  "timers (snd (change c n)) =
     (if state_changes c n \<and> listening n then map_option (\<lambda>ts. {Heartbeat}) (timers n)
      else timers n)"
  "isl (fst (change c n)) = (state_changes c n \<and> listening n \<and> timers n = None)"
  by (auto simp: change_def snd_change_state isl_change_state change_leader_eq change_term_eq
      term_changes_def leader_changes_def state_changes_def split: option.splits)

lemma log_change:
  "log (snd (change c n)) =
     log n @ (if term_changes c n then [TermChange (the (c_term c)) (term n)] else [])
           @ (if leader_changes c n then [LeaderChange (c_leader c) (leader n)] else [])
           @ (if state_changes c n then [StateChange (c_state c) (state n)] else [])"
  by (auto simp: change_def snd_change_state change_leader_eq change_term_eq
      term_changes_def leader_changes_def state_changes_def split: option.splits)

lemma snd_refuse:
  "snd (refuse d n) =
     n\<lparr>log := log n @ VoteEvent d False #
        (case write_slot n of Inherited \<Rightarrow> [WriteCall ''vote'' \<lparr>granted = False\<rparr>] | Nulled \<Rightarrow> [])\<rparr>"
  by (simp add: refuse_def call_write_def write_def observe_def split: slot.splits)

lemma snd_grant:
  "snd (grant d n) =
     n\<lparr>votes_for := Some (p_name d),
       log := log n @ VoteEvent d True #
        (case write_slot n of Inherited \<Rightarrow> [WriteCall ''vote'' \<lparr>granted = True\<rparr>] | Nulled \<Rightarrow> [])\<rparr>"
  by (simp add: grant_def call_write_def write_def observe_def split: slot.splits)

lemma isl_refuse: "isl (fst (refuse d n)) = (write_slot n = Nulled)"
  by (simp add: refuse_def call_write_def write_def observe_def split: slot.splits)

lemma isl_grant: "isl (fst (grant d n)) = (write_slot n = Nulled)"
  by (simp add: grant_def call_write_def write_def observe_def split: slot.splits)


section \<open>The role after a packet\<close>

lemma state_incoming_vote: "state (snd (incoming_vote d n)) = state n"
  by (simp add: incoming_vote_def snd_andthen snd_refuse snd_grant change_fields)

lemma state_incoming_voted:
  assumes "p_term d = term n"
  shows "state (snd (incoming_voted d n)) =
    (if state n = Some CANDIDATE \<and> wins d n then Some LEADER else state n)"
proof (cases "p_payload d")
  case None
  then show ?thesis by (simp add: incoming_voted_def wins_def)
next
  case (Some pl)
  show ?thesis
  proof (cases "nodes n")
    case None
    then show ?thesis using Some assms
      by (simp add: incoming_voted_def snd_andthen quorum_def wins_def)
  next
    case (Some ps)
    then show ?thesis using \<open>p_payload d = Some pl\<close> assms
      by (simp add: incoming_voted_def snd_andthen change_fields quorum_closed wins_def)
  qed
qed

lemma state_dispatch:
  assumes "p_term d = term n"
  shows "state (snd (dispatch d n)) =
    (if p_type d = ''voted'' \<and> state n = Some CANDIDATE \<and> wins d n then Some LEADER else state n)"
  using assms
  by (simp add: dispatch_def snd_heartbeat state_incoming_vote state_incoming_voted)

lemma wins_frame:
  "nodes n' = nodes n \<Longrightarrow> votes_granted n' = votes_granted n \<Longrightarrow> wins d n' = wins d n"
  by (simp only: wins_def)

lemma state_recognise:
  assumes "p_term d = term n"
  shows "state (snd (recognise d n)) =
    (if p_state d = Some LEADER \<and> state n \<noteq> Some FOLLOWER then Some FOLLOWER
     else if p_type d = ''voted'' \<and> state n = Some CANDIDATE \<and> wins d n then Some LEADER
     else state n)"
  using assms
  by (simp add: recognise_def snd_andthen change_fields state_dispatch
      wins_frame [of "snd (change c n)" n for c])

lemma state_incoming:
  "state (snd (incoming v n)) =
    (case v of
       JObject d \<Rightarrow>
         if p_term d > term n then Some FOLLOWER
         else if p_term d < term n then state n
         else if p_state d = Some LEADER \<and> state n \<noteq> Some FOLLOWER then Some FOLLOWER
         else if p_type d = ''voted'' \<and> state n = Some CANDIDATE \<and> wins d n then Some LEADER
         else state n
     | _ \<Rightarrow> state n)"
  by (cases v) (simp_all add: incoming_def snd_andthen change_fields state_recognise wins_def)


lemma state_promote: "state (snd (promote n)) = Some CANDIDATE"
  by (simp add: promote_def snd_andthen change_fields tick_setTimeout_def Let_def
      split: option.splits)

lemma state_expire: "state (snd (expire t n)) \<in> {state n, Some CANDIDATE}"
  by (simp add: expire_def heartbeat_expired_def state_promote broadcast_def Let_def
      split: option.splits timer.splits)


section \<open>Quorum and election\<close>

text \<open>
  C1, as the code has it. \<open>quorum\<close> returns \<open>ceil(N / 2) + 1\<close> for the \<open>N\<close> entries of
  \<open>nodes\<close>, which is \<open>(N + 1) div 2 + 1\<close>: the majority of the \<open>N\<close> peers together with the
  node itself, and \<open>floor(N / 2) + 1\<close> only when \<open>N\<close> is even. A candidate is leader after the
  \<open>'data'\<close> listener ran exactly when the value was a \<open>voted\<close> packet of the candidate's own
  term whose sender does not claim to be leader, and the tally, this reply counted when it is
  granted, is at least that number. A timer expiry leaves it a candidate.
\<close>

theorem quorum_majority_and_election:
  assumes "nodes n = Some ps" and "state n = Some CANDIDATE"
  shows "quorum n = Inr (nat \<lceil>real (length ps) / 2\<rceil> + 1) \<and>
         nat \<lceil>real (length ps) / 2\<rceil> + 1 = (length ps + 1) div 2 + 1 \<and>
         (state (snd (incoming v n)) = Some LEADER \<longleftrightarrow>
            (\<exists>d pl. v = JObject d \<and> p_type d = ''voted'' \<and> p_term d = term n \<and>
               p_state d \<noteq> Some LEADER \<and> p_payload d = Some pl \<and>
               nat \<lceil>real (length ps) / 2\<rceil> + 1
                 \<le> votes_granted n + (if granted pl then 1 else 0))) \<and>
         state (snd (expire t n)) = Some CANDIDATE"
proof -
  have q: "nat \<lceil>real (length ps) / 2\<rceil> + 1 = (length ps + 1) div 2 + 1"
    by linarith
  have "quorum n = Inr (nat \<lceil>real (length ps) / 2\<rceil> + 1)"
    using assms(1) by (simp add: quorum_def)
  moreover have "state (snd (incoming v n)) = Some LEADER \<longleftrightarrow>
            (\<exists>d pl. v = JObject d \<and> p_type d = ''voted'' \<and> p_term d = term n \<and>
               p_state d \<noteq> Some LEADER \<and> p_payload d = Some pl \<and>
               (length ps + 1) div 2 + 1 \<le> votes_granted n + (if granted pl then 1 else 0))"
  proof (cases v)
    case (JObject d)
    then show ?thesis using assms
      by (cases "p_payload d") (auto simp: state_incoming wins_def)
  qed (simp_all add: state_incoming assms)
  moreover have "state (snd (expire t n)) = Some CANDIDATE"
    using state_expire [of t n] assms(2) by simp
  ultimately show ?thesis using q by simp
qed

theorem quorum_majority_and_election_witness:
  "nodes (candidate [''a'', ''b'']) = Some [''a'', ''b''] \<and>
   state (candidate [''a'', ''b'']) = Some CANDIDATE \<and>
   quorum (candidate [''a'', ''b'']) = Inr 2 \<and>
   state (snd (incoming (JObject voted_yes) (candidate [''a'', ''b'']))) = Some LEADER"
proof -
  have 1: "nodes (candidate [''a'', ''b'']) = Some [''a'', ''b'']"
    by (simp add: candidate_def eval_defs)
  have 2: "state (candidate [''a'', ''b'']) = Some CANDIDATE"
    by (simp add: candidate_def eval_defs)
  have 3: "term (candidate [''a'', ''b'']) = 1" "votes_granted (candidate [''a'', ''b'']) = 1"
    by (simp_all add: candidate_def eval_defs)
  show ?thesis
    using quorum_majority_and_election [OF 1 2, of "JObject voted_yes"] 1 2 3
    by (simp add: voted_yes_def)
qed

text \<open>
  C1 as stated fails for three peers: \<open>quorum\<close> is 3, not \<open>floor(3 / 2) + 1 = 2\<close>, and a
  candidate whose tally reaches 2 stays a candidate.
\<close>

theorem quorum_floor_counterexample:
  "quorum (candidate [''a'', ''b'', ''c'']) \<noteq> Inr (length [''a'', ''b'', ''c''] div 2 + 1) \<and>
   votes_granted (snd (call_read (JObject voted_yes) (candidate [''a'', ''b'', ''c''])))
     = length [''a'', ''b'', ''c''] div 2 + 1 \<and>
   state (snd (call_read (JObject voted_yes) (candidate [''a'', ''b'', ''c'']))) = Some CANDIDATE"
  by (simp add: candidate_def voted_yes_def eval_defs)

section \<open>The term\<close>

lemma term_incoming_vote: "term (snd (incoming_vote d n)) = max (term n) (p_term d)"
  by (simp add: incoming_vote_def snd_andthen snd_refuse snd_grant change_fields)

lemma term_incoming_voted:
  "p_term d = term n \<Longrightarrow> term (snd (incoming_voted d n)) = term n"
  by (simp add: incoming_voted_def snd_andthen change_fields quorum_def Let_def
      split: option.splits)

lemma term_dispatch: "p_term d = term n \<Longrightarrow> term (snd (dispatch d n)) = term n"
  by (simp add: dispatch_def snd_heartbeat term_incoming_vote term_incoming_voted)

lemma term_recognise: "p_term d = term n \<Longrightarrow> term (snd (recognise d n)) = term n"
  by (simp add: recognise_def snd_andthen change_fields term_dispatch)

lemma term_incoming:
  "term (snd (incoming v n)) = (case v of JObject d \<Rightarrow> max (term n) (p_term d) | _ \<Rightarrow> term n)"
  by (cases v) (simp_all add: incoming_def snd_andthen change_fields term_recognise)

lemma term_call_read: "term n \<le> term (snd (call_read v n))"
  by (cases v) (simp_all add: call_read_def read_def snd_andthen term_incoming split: slot.splits)

lemma term_promote: "term (snd (promote n)) = js_inc (term n)"
  by (simp add: promote_def snd_andthen change_fields tick_setTimeout_def Let_def
      split: option.splits)

lemma term_expire: "term n \<le> term (snd (expire t n))"
  by (simp add: expire_def heartbeat_expired_def term_promote js_inc_ge broadcast_def observe_def
      Let_def split: option.splits timer.splits)

lemma term_step: "term n \<le> term (step i n)"
  by (cases i) (simp_all add: step_def term_call_read term_expire)

lemma run_append: "run (is @ js) n = run js (run is n)"
  by (induction "is" arbitrary: n) simp_all

lemma term_run: "term n \<le> term (run is n)"
proof (induction "is" arbitrary: n)
  case Nil
  show ?case by simp
next
  case (Cons i "is")
  have "term n \<le> term (step i n)" by (rule term_step)
  also have "\<dots> \<le> term (run is (step i n))" by (rule Cons.IH)
  finally show ?case by simp
qed

text \<open>
  C3. A value given to \<open>read\<close> or a timer expiry never lowers the term, and along any
  sequence of them the term after a prefix is at most the term after the whole sequence.
\<close>

theorem term_never_decreases:
  "term n \<le> term (step i n) \<and> term (run is n) \<le> term (run (is @ js) n)"
  by (simp add: term_step run_append term_run)

text \<open>
  C5. A packet whose term is below the node's term leaves the node as it was: no field
  changes and nothing is emitted or written, whatever the packet's type. The listener
  returns normally; \<open>read\<close> then returns true on a node whose listeners are registered.
\<close>

theorem stale_packet_dropped:
  assumes "p_term d < term n"
  shows "incoming (JObject d) n = (Inr (), n) \<and>
         call_read (JObject d) n =
           (if read_slot n = Nulled then Inl TypeError else Inr (listening n), n)"
  using assms by (simp add: incoming_def call_read_def read_def split: slot.splits)

theorem stale_packet_dropped_witness:
  "p_term stale_vote < term at_term_5 \<and>
   incoming (JObject stale_vote) at_term_5 = (Inr (), at_term_5) \<and>
   call_read (JObject stale_vote) at_term_5 = (Inr True, at_term_5)"
proof -
  have h: "p_term stale_vote < term at_term_5"
    by (simp add: stale_vote_def at_term_5_def Node_def)
  show ?thesis
    using h stale_packet_dropped [OF h] by (simp add: at_term_5_def Node_def)
qed

section \<open>The leader field\<close>

lemma leader_incoming_vote: "leader (snd (incoming_vote d n)) = leader n"
  by (simp add: incoming_vote_def snd_andthen snd_refuse snd_grant change_fields)

lemma leader_incoming_voted:
  assumes "p_term d = term n"
  shows "leader (snd (incoming_voted d n)) =
    (if state n = Some CANDIDATE \<and> wins d n then Some (name n) else leader n)"
proof (cases "p_payload d")
  case None
  then show ?thesis by (simp add: incoming_voted_def wins_def)
next
  case (Some pl)
  show ?thesis
  proof (cases "nodes n")
    case None
    then show ?thesis using Some assms
      by (simp add: incoming_voted_def snd_andthen quorum_def wins_def)
  next
    case (Some ps)
    then show ?thesis using \<open>p_payload d = Some pl\<close> assms
      by (simp add: incoming_voted_def snd_andthen change_fields quorum_closed wins_def)
  qed
qed

lemma leader_dispatch:
  assumes "p_term d = term n"
  shows "leader (snd (dispatch d n)) =
    (if p_type d = ''voted'' \<and> state n = Some CANDIDATE \<and> wins d n then Some (name n) else leader n)"
  using assms
  by (simp add: dispatch_def snd_heartbeat leader_incoming_vote leader_incoming_voted)

lemma leader_recognise:
  assumes "p_term d = term n"
  shows "leader (snd (recognise d n)) =
    (if p_state d = Some LEADER \<and> state n \<noteq> Some FOLLOWER then leader n
     else if p_type d = ''voted'' \<and> state n = Some CANDIDATE \<and> wins d n then Some (name n)
     else leader n)"
  using assms
  by (simp add: recognise_def snd_andthen change_fields leader_dispatch
      wins_frame [of "snd (change c n)" n for c])

lemma leader_incoming:
  "leader (snd (incoming v n)) =
    (case v of
       JObject d \<Rightarrow>
         if p_term d = term n \<and> p_state d \<noteq> Some LEADER \<and> p_type d = ''voted'' \<and>
            state n = Some CANDIDATE \<and> wins d n
         then Some (name n) else leader n
     | _ \<Rightarrow> leader n)"
  by (cases v) (auto simp add: incoming_def snd_andthen change_fields leader_recognise)

lemma name_incoming_vote: "name (snd (incoming_vote d n)) = name n"
  by (simp add: incoming_vote_def snd_andthen snd_refuse snd_grant change_fields)

lemma name_incoming_voted: "name (snd (incoming_voted d n)) = name n"
  by (simp add: incoming_voted_def snd_andthen change_fields quorum_def Let_def
      split: option.splits)

lemma name_dispatch: "name (snd (dispatch d n)) = name n"
  by (simp add: dispatch_def snd_heartbeat name_incoming_vote name_incoming_voted)

lemma name_recognise: "name (snd (recognise d n)) = name n"
  by (simp add: recognise_def snd_andthen change_fields name_dispatch)

lemma name_incoming: "name (snd (incoming v n)) = name n"
  by (cases v) (simp_all add: incoming_def snd_andthen change_fields name_recognise)

lemma snd_call_read:
  "snd (call_read v n) = (if read_slot n = Inherited \<and> listening n then snd (incoming v n) else n)"
  by (simp add: call_read_def read_def snd_andthen split: slot.splits)

lemma name_promote: "name (snd (promote n)) = name n"
  by (simp add: promote_def snd_andthen change_fields tick_setTimeout_def Let_def
      split: option.splits)

lemma leader_promote: "leader (snd (promote n)) = Some []"
  by (simp add: promote_def snd_andthen change_fields tick_setTimeout_def Let_def
      split: option.splits)

lemma name_step: "name (step i n) = name n"
  by (cases i)
     (simp_all add: step_def snd_call_read name_incoming expire_def heartbeat_expired_def
       name_promote broadcast_def observe_def Let_def split: option.splits timer.splits)

lemma leader_step: "leader (step i n) \<in> {leader n, Some [], Some (name n)}"
proof (cases i)
  case (Packet v)
  then show ?thesis
    by (cases v) (simp_all add: step_def snd_call_read leader_incoming)
next
  case (Timeout t)
  then show ?thesis
    by (simp add: step_def expire_def heartbeat_expired_def
       leader_promote broadcast_def observe_def Let_def split: option.splits timer.splits)
qed

lemma leader_run: "name (run is n) = name n \<and> leader (run is n) \<in> {leader n, Some [], Some (name n)}"
proof (induction "is" arbitrary: n)
  case Nil
  show ?case by simp
next
  case (Cons i "is")
  from Cons.IH [of "step i n"] leader_step [of i n] name_step [of i n]
  show ?case by auto
qed

text \<open>
  C10. The leader field after a packet does not depend on the sender's name; a packet whose
  sender claims to be leader leaves it as it was; after any value given to the listener it is
  the old value or the node's own name, after any input the old value, the empty string or
  the node's own name; and along every run of a constructed node it is \<open>null\<close>, the empty
  string or the node's own name.
\<close>

theorem leader_never_names_the_sender:
  "leader (snd (incoming (JObject (d\<lparr>p_name := x\<rparr>)) n)) = leader (snd (incoming (JObject d) n)) \<and>
   leader (snd (incoming (JObject (d\<lparr>p_state := Some LEADER\<rparr>)) n)) = leader n \<and>
   leader (snd (incoming v n)) \<in> {leader n, Some (name n)} \<and>
   leader (step i n) \<in> {leader n, Some [], Some (name n)} \<and>
   leader (run is (Node opt_name uuid)) \<in> {None, Some [], Some (name (Node opt_name uuid))}"
proof -
  have 1: "leader (snd (incoming (JObject (d\<lparr>p_name := x\<rparr>)) n))
             = leader (snd (incoming (JObject d) n))"
    by (simp add: leader_incoming wins_def)
  have 2: "leader (snd (incoming (JObject (d\<lparr>p_state := Some LEADER\<rparr>)) n)) = leader n"
    by (simp add: leader_incoming)
  have 3: "leader (snd (incoming v n)) \<in> {leader n, Some (name n)}"
    by (cases v) (simp_all add: leader_incoming)
  have 4: "leader (run is (Node opt_name uuid))
             \<in> {None, Some [], Some (name (Node opt_name uuid))}"
    using leader_run [of "is" "Node opt_name uuid"] by (simp add: Node_def)
  from 1 2 3 4 leader_step [of i n] show ?thesis by blast
qed


section \<open>After \<open>end\<close>\<close>

text \<open>
  C7, as the code has it. Once \<open>end\<close> has returned true, another \<open>end\<close> returns false and
  changes nothing; \<open>read\<close> and \<open>write\<close> have been set to \<open>null\<close>, so calling either throws a
  \<open>TypeError\<close>, and changes nothing.
\<close>

theorem ended_node_calls:
  assumes "end n = (Inr True, n')"
  shows "end n' = (Inr False, n') \<and> call_read v n' = (Inl TypeError, n') \<and>
         call_write k r n' = (Inl TypeError, n')"
  using assms
  by (auto simp: end_def call_read_def call_write_def split: if_splits option.splits)

theorem ended_node_calls_witness:
  "end (Node ''n1'' ''uuid'') = (Inr True, snd (end (Node ''n1'' ''uuid''))) \<and>
   end (snd (end (Node ''n1'' ''uuid''))) = (Inr False, snd (end (Node ''n1'' ''uuid''))) \<and>
   call_read (JObject stale_vote) (snd (end (Node ''n1'' ''uuid'')))
     = (Inl TypeError, snd (end (Node ''n1'' ''uuid''))) \<and>
   call_write ''vote'' \<lparr>granted = False\<rparr> (snd (end (Node ''n1'' ''uuid'')))
     = (Inl TypeError, snd (end (Node ''n1'' ''uuid'')))"
proof -
  have 1: "end (Node ''n1'' ''uuid'') = (Inr True, snd (end (Node ''n1'' ''uuid'')))"
    by (simp add: end_def Node_def)
  show ?thesis
    using ended_node_calls [OF 1, of "JObject stale_vote" "''vote''" "\<lparr>granted = False\<rparr>"] 1
    by simp
qed

text \<open>
  C7 as stated fails: on a constructed node that was ended, \<open>read\<close> and \<open>write\<close> throw
  instead of returning false.
\<close>

theorem read_after_end_counterexample:
  "fst (end (Node ''n1'' ''uuid'')) = Inr True \<and>
   fst (call_read JUndefined (snd (end (Node ''n1'' ''uuid'')))) = Inl TypeError \<and>
   fst (call_write ''vote'' \<lparr>granted = False\<rparr> (snd (end (Node ''n1'' ''uuid'')))) = Inl TypeError"
  by (simp add: eval_defs)


section \<open>Values that are not packets\<close>

text \<open>
  C9 at two inputs. \<open>read(null)\<close> on a freshly constructed node throws a \<open>TypeError\<close>:
  \<open>typeof null\<close> is \<open>'object'\<close>, so the listener goes on to read \<open>data.term\<close>. A \<open>voted\<close>
  packet without \<open>payload\<close>, of the term of a candidate, throws as well, at
  \<open>data.payload.granted\<close>. In both cases the node is left as it was.
\<close>

theorem read_null_throws:
  "call_read JNull (Node ''n1'' ''uuid'') = (Inl TypeError, Node ''n1'' ''uuid'') \<and>
   call_read (JObject voted_bare) (candidate [''a'', ''b'']) = (Inl TypeError, candidate [''a'', ''b''])"
  by (simp add: candidate_def voted_bare_def eval_defs)


section \<open>The leader's heartbeat\<close>

text \<open>
  C2 at the elected leader, whose heartbeat timer is pending. When the timer expires the
  callback calls \<open>broadcast\<close>, which builds the packet and returns: nothing is written or
  emitted (the log is unchanged) and no timer is pending afterwards.
\<close>

theorem leader_heartbeat_expiry:
  "state elected = Some LEADER \<and> timers elected = Some {Heartbeat} \<and>
   expire Heartbeat elected = (Inr (), elected\<lparr>timers := Some {}\<rparr>)"
  by (simp add: elected_def candidate_def voted_yes_def eval_defs)

section \<open>Term change and the vote\<close>

lemma votes_dispatch_fresh:
  assumes "term m = p_term d" and "state m = Some FOLLOWER"
    and "votes_for m = None" and "votes_granted m = 0"
  shows "votes_granted (snd (dispatch d m)) = 0 \<and>
         votes_for (snd (dispatch d m)) = (if p_type d = ''vote'' then Some (p_name d) else None)"
  using assms
  by (simp add: dispatch_def incoming_vote_def incoming_voted_def snd_grant snd_heartbeat
      truthy_def)

lemma votes_incoming_advance:
  assumes "live n" and "term n < p_term d"
  shows "votes_granted (snd (incoming (JObject d) n)) = 0 \<and>
         votes_for (snd (incoming (JObject d) n)) =
           (if p_type d = ''vote'' then Some (p_name d) else None)"
proof -
  let ?c = "\<lparr>c_term = Some (p_term d), c_leader = None, c_state = Some FOLLOWER\<rparr>"
  let ?m = "snd (change ?c n)"
  have l: "listening n" "timers n \<noteq> None" using assms(1) by (simp_all add: live_def)
  have ok: "\<not> isl (fst (change ?c n))" using l by (simp add: change_fields)
  have m: "term ?m = p_term d" "state ?m = Some FOLLOWER" "votes_for ?m = None"
    "votes_granted ?m = 0"
    using l assms(2) by (simp_all add: change_fields term_changes_def)
  have "snd (incoming (JObject d) n) = snd (dispatch d ?m)"
    using assms(2) ok m by (simp add: incoming_def snd_andthen recognise_def)
  then show ?thesis using votes_dispatch_fresh [OF m] by simp
qed

lemma votes_incoming_vote_advance:
  assumes "live n" and "term n < p_term d"
  shows "votes_granted (snd (incoming_vote d n)) = 0 \<and>
         votes_for (snd (incoming_vote d n)) = Some (p_name d) \<and>
         log (snd (incoming_vote d n)) =
           log n @ [TermChange (p_term d) (term n), VoteEvent d True,
                    WriteCall ''vote'' \<lparr>granted = True\<rparr>]"
proof -
  have l: "listening n" "write_slot n = Inherited" using assms(1) by (simp_all add: live_def)
  show ?thesis
    using l assms(2)
    by (simp add: incoming_vote_def snd_andthen snd_grant change_fields log_change
        term_changes_def leader_changes_def state_changes_def)
qed

lemma votes_promote:
  assumes "live n"
  shows "votes_for (snd (promote n)) = Some (name n) \<and> votes_granted (snd (promote n)) = 1"
proof -
  obtain ts where l: "listening n" "timers n = Some ts"
    using assms(1) by (auto simp: live_def)
  then show ?thesis
    by (simp add: promote_def snd_andthen change_fields tick_setTimeout_def Let_def
        split: option.splits)
qed

lemma votes_expire:
  assumes "live n" and "term (snd (expire t n)) \<noteq> term n"
  shows "votes_for (snd (expire t n)) = Some (name n) \<and> votes_granted (snd (expire t n)) = 1"
proof -
  obtain ts where ts: "timers n = Some ts" using assms(1) by (auto simp: live_def)
  have "t \<in> ts" using assms(2) ts by (auto simp: expire_def tick_active_def split: if_splits)
  let ?m = "n\<lparr>timers := Some (ts - {t})\<rparr>"
  have 1: "live ?m" "live (observe HeartbeatTimeout ?m)"
    using assms(1) by (simp_all add: live_def observe_def)
  show ?thesis
    using assms(2) ts \<open>t \<in> ts\<close> votes_promote [OF 1(1)] votes_promote [OF 1(2)]
    by (cases t)
       (auto simp: expire_def tick_active_def heartbeat_expired_def broadcast_def observe_def
         Let_def split: if_splits)
qed

text \<open>
  C6. On a live node, every transition that alters the term resets the vote at that
  point. A call of \<open>change\<close> that alters the term leaves \<open>votes.for = null\<close> and
  \<open>votes.granted = 0\<close>, both right after the round of the loop that assigns the term and
  emits \<open>'term change'\<close> and when \<open>change\<close> returns. A value given to the \<open>'data'\<close> listener
  that alters the term leaves \<open>votes.granted = 0\<close> and \<open>votes.for = null\<close>, unless it is a
  vote solicitation, which then finds no vote and is granted, so that \<open>votes.for\<close> is its
  sender. The vote handler on its own, given a higher term, does the same and its log is the
  \<open>'term change'\<close>, the \<open>'vote'\<close> event with \<open>true\<close> and the granted reply. When \<open>promote\<close>
  alters the term, its call of \<open>change\<close> leaves the vote reset, and \<open>promote\<close> returns with
  the node's vote for itself and a tally of 1. The same holds for every input: a packet
  through \<open>read\<close>, or a timer expiry.
\<close>

theorem term_change_resets_vote:
  assumes "live n"
  shows "(term (snd (change c n)) \<noteq> term n \<longrightarrow>
            term (change_term c n) = term (snd (change c n)) \<and>
            votes_for (change_term c n) = None \<and> votes_granted (change_term c n) = 0 \<and>
            votes_for (snd (change c n)) = None \<and> votes_granted (snd (change c n)) = 0) \<and>
         (term (snd (incoming v n)) \<noteq> term n \<longrightarrow>
            votes_granted (snd (incoming v n)) = 0 \<and>
            votes_for (snd (incoming v n)) =
              (case v of JObject d \<Rightarrow> if p_type d = ''vote'' then Some (p_name d) else None
               | _ \<Rightarrow> None)) \<and>
         (term (snd (incoming_vote d n)) \<noteq> term n \<longrightarrow>
            votes_granted (snd (incoming_vote d n)) = 0 \<and>
            votes_for (snd (incoming_vote d n)) = Some (p_name d) \<and>
            log (snd (incoming_vote d n)) =
              log n @ [TermChange (p_term d) (term n), VoteEvent d True,
                       WriteCall ''vote'' \<lparr>granted = True\<rparr>]) \<and>
         (term (snd (promote n)) \<noteq> term n \<longrightarrow>
            votes_for (snd (change \<lparr>c_term = Some (js_inc (term n)), c_leader = Some [],
                                     c_state = Some CANDIDATE\<rparr> n)) = None \<and>
            votes_granted (snd (change \<lparr>c_term = Some (js_inc (term n)), c_leader = Some [],
                                         c_state = Some CANDIDATE\<rparr> n)) = 0 \<and>
            votes_for (snd (promote n)) = Some (name n) \<and>
            votes_granted (snd (promote n)) = 1) \<and>
         (term (step i n) \<noteq> term n \<longrightarrow>
            (case i of
               Packet w \<Rightarrow>
                 votes_granted (step i n) = 0 \<and>
                 votes_for (step i n) =
                   (case w of JObject d \<Rightarrow> if p_type d = ''vote'' then Some (p_name d) else None
                    | _ \<Rightarrow> None)
             | Timeout t \<Rightarrow>
                 votes_for (step i n) = Some (name n) \<and> votes_granted (step i n) = 1))"
proof -
  have l: "listening n" "read_slot n = Inherited" using assms by (simp_all add: live_def)
  have A: "term (change_term c n) = term (snd (change c n)) \<and>
            votes_for (change_term c n) = None \<and> votes_granted (change_term c n) = 0 \<and>
            votes_for (snd (change c n)) = None \<and> votes_granted (snd (change c n)) = 0"
    if "term (snd (change c n)) \<noteq> term n"
    using l that
    by (auto simp: change_fields change_term_eq term_changes_def split: option.splits)
  have B: "votes_granted (snd (incoming w n)) = 0 \<and>
            votes_for (snd (incoming w n)) =
              (case w of JObject d \<Rightarrow> if p_type d = ''vote'' then Some (p_name d) else None
               | _ \<Rightarrow> None)"
    if "term (snd (incoming w n)) \<noteq> term n" for w
  proof (cases w)
    case (JObject e)
    then have "term n < p_term e" using that by (simp add: term_incoming)
    then show ?thesis using votes_incoming_advance [OF assms] JObject by simp
  qed (use that in \<open>simp_all add: term_incoming\<close>)
  have C: "votes_granted (snd (incoming_vote d n)) = 0 \<and>
            votes_for (snd (incoming_vote d n)) = Some (p_name d) \<and>
            log (snd (incoming_vote d n)) =
              log n @ [TermChange (p_term d) (term n), VoteEvent d True,
                       WriteCall ''vote'' \<lparr>granted = True\<rparr>]"
    if "term (snd (incoming_vote d n)) \<noteq> term n"
  proof -
    have "term n < p_term d" using that by (simp add: term_incoming_vote)
    then show ?thesis by (rule votes_incoming_vote_advance [OF assms])
  qed
  have D: "votes_for (snd (change \<lparr>c_term = Some (js_inc (term n)), c_leader = Some [],
                                     c_state = Some CANDIDATE\<rparr> n)) = None \<and>
            votes_granted (snd (change \<lparr>c_term = Some (js_inc (term n)), c_leader = Some [],
                                         c_state = Some CANDIDATE\<rparr> n)) = 0"
    if "term (snd (promote n)) \<noteq> term n"
    using that l by (simp add: term_promote change_fields term_changes_def)
  have E: "(case i of
               Packet w \<Rightarrow>
                 votes_granted (step i n) = 0 \<and>
                 votes_for (step i n) =
                   (case w of JObject d \<Rightarrow> if p_type d = ''vote'' then Some (p_name d) else None
                    | _ \<Rightarrow> None)
             | Timeout t \<Rightarrow>
                 votes_for (step i n) = Some (name n) \<and> votes_granted (step i n) = 1)"
    if "term (step i n) \<noteq> term n"
  proof (cases i)
    case (Packet w)
    then show ?thesis using that l B [of w] by (simp add: step_def snd_call_read)
  next
    case (Timeout t)
    then show ?thesis using that votes_expire [OF assms, of t] by (simp add: step_def)
  qed
  show ?thesis using A B [of v] C D E votes_promote [OF assms] by blast
qed

lemma voted_for_A_live: "live voted_for_A"
  by (simp add: live_def voted_for_A_def Node_def)

theorem term_change_resets_vote_witness:
  "live voted_for_A \<and> votes_for voted_for_A = Some ''A'' \<and> votes_granted voted_for_A = 2 \<and>
   term voted_for_A = 4 \<and>
   term (snd (change to_term_7 voted_for_A)) = 7 \<and>
   votes_for (change_term to_term_7 voted_for_A) = None \<and>
   votes_granted (change_term to_term_7 voted_for_A) = 0 \<and>
   votes_for (snd (change to_term_7 voted_for_A)) = None \<and>
   votes_granted (snd (change to_term_7 voted_for_A)) = 0 \<and>
   term (snd (incoming (JObject heartbeat_7) voted_for_A)) = 7 \<and>
   votes_for (snd (incoming (JObject heartbeat_7) voted_for_A)) = None \<and>
   votes_granted (snd (incoming (JObject heartbeat_7) voted_for_A)) = 0 \<and>
   term (snd (incoming_vote vote_7 voted_for_A)) = 7 \<and>
   votes_for (snd (incoming_vote vote_7 voted_for_A)) = Some ''B'' \<and>
   votes_granted (snd (incoming_vote vote_7 voted_for_A)) = 0 \<and>
   term (snd (promote voted_for_A)) = 5 \<and>
   votes_for (snd (promote voted_for_A)) = Some ''n1'' \<and>
   votes_granted (snd (promote voted_for_A)) = 1 \<and>
   term (step (Packet (JObject vote_7)) voted_for_A) = 7 \<and>
   votes_for (step (Packet (JObject vote_7)) voted_for_A) = Some ''B'' \<and>
   votes_granted (step (Packet (JObject vote_7)) voted_for_A) = 0"
proof -
  have t: "term voted_for_A = 4" "votes_for voted_for_A = Some ''A''"
    "votes_granted voted_for_A = 2" "name voted_for_A = ''n1''"
    by (simp_all add: voted_for_A_def Node_def)
  have 1: "term (snd (change to_term_7 voted_for_A)) = 7"
    by (simp add: change_fields to_term_7_def)
  have 2: "term (snd (incoming (JObject heartbeat_7) voted_for_A)) = 7"
    by (simp add: term_incoming heartbeat_7_def t)
  have 3: "term (snd (incoming_vote vote_7 voted_for_A)) = 7"
    by (simp add: term_incoming_vote vote_7_def t)
  have 4: "term (snd (promote voted_for_A)) = 5"
    by (simp add: term_promote t js_inc_def)
  have 5: "term (step (Packet (JObject vote_7)) voted_for_A) = 7"
    using voted_for_A_live
    by (simp add: step_def snd_call_read term_incoming vote_7_def t live_def)
  show ?thesis
    using term_change_resets_vote [OF voted_for_A_live, of to_term_7 "JObject heartbeat_7" vote_7
            "Packet (JObject vote_7)"]
      voted_for_A_live t 1 2 3 4 5
    by (simp add: heartbeat_7_def vote_7_def)
qed

section \<open>Timers\<close>

lemma timer_inv_andthen:
  "timer_inv (snd r) \<Longrightarrow> (\<And>m. timer_inv m \<Longrightarrow> timer_inv (snd (f m))) \<Longrightarrow>
   timer_inv (snd (andthen r f))"
  by (simp add: snd_andthen)

lemma timer_inv_change: "timer_inv n \<Longrightarrow> timer_inv (snd (change c n))"
  by (auto simp: timer_inv_def change_fields state_changes_def split: option.splits)

lemma timer_inv_heartbeat: "timer_inv n \<Longrightarrow> timer_inv (snd (heartbeat x n))"
  by (auto simp: timer_inv_def snd_heartbeat split: option.splits)

lemma timer_inv_refuse: "timer_inv n \<Longrightarrow> timer_inv (snd (refuse d n))"
  by (auto simp: timer_inv_def snd_refuse split: option.splits)

lemma timer_inv_grant: "timer_inv n \<Longrightarrow> timer_inv (snd (grant d n))"
  by (auto simp: timer_inv_def snd_grant split: option.splits)

lemma timer_inv_incoming_vote: "timer_inv n \<Longrightarrow> timer_inv (snd (incoming_vote d n))"
  by (simp add: incoming_vote_def timer_inv_refuse timer_inv_grant timer_inv_andthen
      timer_inv_change)

lemma timer_inv_incoming_voted: "timer_inv n \<Longrightarrow> timer_inv (snd (incoming_voted d n))"
  by (auto simp: timer_inv_def incoming_voted_def snd_andthen change_fields quorum_def Let_def
      state_changes_def split: option.splits)

lemma timer_inv_dispatch: "timer_inv n \<Longrightarrow> timer_inv (snd (dispatch d n))"
  by (simp add: dispatch_def timer_inv_heartbeat timer_inv_incoming_vote timer_inv_incoming_voted)

lemma timer_inv_recognise: "timer_inv n \<Longrightarrow> timer_inv (snd (recognise d n))"
  by (simp add: recognise_def timer_inv_dispatch timer_inv_andthen timer_inv_change)

lemma timer_inv_incoming: "timer_inv n \<Longrightarrow> timer_inv (snd (incoming v n))"
  by (cases v)
     (simp_all add: incoming_def timer_inv_recognise timer_inv_andthen timer_inv_change)

lemma timer_inv_promote:
  assumes "listening n" and "timers n \<noteq> None"
  shows "timer_inv (snd (promote n))"
proof -
  have "listening (snd (promote n))"
    using assms(1)
    by (simp add: promote_def snd_andthen change_fields tick_setTimeout_def Let_def
        split: option.splits)
  moreover have "timers (snd (promote n)) \<noteq> None"
    using assms(2)
    by (simp add: promote_def snd_andthen change_fields tick_setTimeout_def Let_def
        split: option.splits)
  ultimately show ?thesis
    by (auto simp: timer_inv_def state_promote split: option.splits)
qed

lemma timer_inv_expire:
  assumes "timer_inv n"
  shows "timer_inv (snd (expire t n))"
proof -
  obtain ts where ts: "timers n = Some ts" "listening n"
    "Election \<notin> ts \<or> state n = Some CANDIDATE"
    using assms by (auto simp: timer_inv_def split: option.splits)
  show ?thesis
  proof (cases "t \<in> ts")
    case False
    then show ?thesis using ts assms by (simp add: expire_def tick_active_def)
  next
    case True
    let ?m = "n\<lparr>timers := Some (ts - {t})\<rparr>"
    have p: "timer_inv (snd (promote ?m))" "timer_inv (snd (promote (observe HeartbeatTimeout ?m)))"
      using ts by (simp_all add: timer_inv_promote observe_def)
    have b: "timer_inv (snd (broadcast ''heartbeat'' None ?m))" if "state n = Some LEADER"
      using ts that by (auto simp add: broadcast_def timer_inv_def)
    show ?thesis
      using True ts p b
      by (cases t) (auto simp add: expire_def tick_active_def heartbeat_expired_def Let_def)
  qed
qed

lemma timer_inv_step: "timer_inv n \<Longrightarrow> timer_inv (step i n)"
  by (cases i)
     (auto simp add: step_def snd_call_read timer_inv_incoming timer_inv_expire)

lemma timer_inv_run: "timer_inv n \<Longrightarrow> timer_inv (run is n)"
  by (induction "is" arbitrary: n) (simp_all add: timer_inv_step)

lemma no_election: "Election \<notin> ts \<Longrightarrow> ts = {} \<or> ts = {Heartbeat}"
proof -
  assume "Election \<notin> ts"
  then have "ts \<subseteq> {Heartbeat}"
    by (auto intro: timer.exhaust)
  then show ?thesis by auto
qed

text \<open>
  C8, as the code has it. Take a node whose listeners are registered and whose election
  timer, if pending, belongs to a candidate, as on every constructed node. After every run
  of packets and timer expiries the node is a candidate or at most its heartbeat timer is
  pending: the election timer is pending only on a candidate. A call of \<open>change\<close> that
  alters the role, whatever the old and the new role, clears the registry and arms the
  heartbeat timer, so that alone is pending when \<open>change\<close> returns. \<open>promote\<close> on a node
  that is not a candidate makes such a change, then arms the election timer too, and
  returns with both pending.
\<close>

theorem election_timer_only_for_candidate:
  assumes "listening n" and "timers n = Some ts"
    and "Election \<in> ts \<longrightarrow> state n = Some CANDIDATE"
  shows "(state (run is n) = Some CANDIDATE \<or> timers (run is n) = Some {} \<or>
            timers (run is n) = Some {Heartbeat}) \<and>
         (state n \<noteq> Some s \<longrightarrow>
            timers (snd (change \<lparr>c_term = t, c_leader = l, c_state = Some s\<rparr> n)) = Some {Heartbeat}) \<and>
         (state n \<noteq> Some CANDIDATE \<longrightarrow>
            fst (promote n) = Inr () \<and> timers (snd (promote n)) = Some {Heartbeat, Election}) \<and>
         (state (run js (Node opt_name uuid)) = Some CANDIDATE \<or>
            timers (run js (Node opt_name uuid)) = Some {} \<or>
            timers (run js (Node opt_name uuid)) = Some {Heartbeat})"
proof -
  have "timer_inv (Node opt_name uuid)" by (simp add: timer_inv_def Node_def)
  then have "timer_inv (run js (Node opt_name uuid))" by (rule timer_inv_run)
  then have N: "state (run js (Node opt_name uuid)) = Some CANDIDATE \<or>
            timers (run js (Node opt_name uuid)) = Some {} \<or>
            timers (run js (Node opt_name uuid)) = Some {Heartbeat}"
    using no_election by (auto simp: timer_inv_def split: option.splits)
  have "timer_inv n" using assms by (auto simp: timer_inv_def)
  then have "timer_inv (run is n)" by (rule timer_inv_run)
  then have A: "state (run is n) = Some CANDIDATE \<or> timers (run is n) = Some {} \<or>
            timers (run is n) = Some {Heartbeat}"
    using no_election by (auto simp: timer_inv_def split: option.splits)
  have 1: "timers (snd (change \<lparr>c_term = t, c_leader = l, c_state = Some s\<rparr> n)) = Some {Heartbeat}"
    if "state n \<noteq> Some s" for t l s
    using assms(1,2) that by (auto simp add: change_fields state_changes_def)
  have C: "fst (promote n) = Inr () \<and> timers (snd (promote n)) = Some {Heartbeat, Election}"
    if nc: "state n \<noteq> Some CANDIDATE"
  proof -
    let ?c = "\<lparr>c_term = Some (js_inc (term n)), c_leader = Some [], c_state = Some CANDIDATE\<rparr>"
    have "\<not> isl (fst (change ?c n))"
      using assms by (simp add: change_fields)
    then obtain m where c: "change ?c n = (Inr (), m)"
      by (cases "change ?c n"; cases "fst (change ?c n)") auto
    have m: "timers m = Some {Heartbeat}"
      using 1 [OF nc, of "Some (js_inc (term n))" "Some []"] c by simp
    have "promote n =
            (Inr (), m\<lparr>votes_for := Some (name m), votes_granted := 1,
                        timers := Some {Heartbeat, Election}\<rparr>)"
      by (simp add: promote_def c m tick_setTimeout_def Let_def insert_commute)
    then show ?thesis by simp
  qed
  show ?thesis using A 1 C N by blast
qed

lemma candidate_fields:
  "listening (candidate [''a'', ''b''])" "timers (candidate [''a'', ''b'']) = Some {Heartbeat, Election}"
  "state (candidate [''a'', ''b'']) = Some CANDIDATE"
  by (simp_all add: candidate_def eval_defs insert_commute)

theorem election_timer_only_for_candidate_witness:
  "listening (candidate [''a'', ''b'']) \<and>
   timers (candidate [''a'', ''b'']) = Some {Heartbeat, Election} \<and>
   state (candidate [''a'', ''b'']) = Some CANDIDATE \<and>
   state (candidate [''a'', ''b'']) \<noteq> Some LEADER \<and>
   state (run [Packet (JObject voted_yes)] (candidate [''a'', ''b''])) = Some LEADER \<and>
   timers (run [Packet (JObject voted_yes)] (candidate [''a'', ''b''])) = Some {Heartbeat} \<and>
   timers (snd (change \<lparr>c_term = None, c_leader = Some ''n1'', c_state = Some LEADER\<rparr>
                  (candidate [''a'', ''b'']))) = Some {Heartbeat} \<and>
   listening (Node ''n1'' ''uuid'') \<and> timers (Node ''n1'' ''uuid'') = Some {} \<and>
   state (Node ''n1'' ''uuid'') \<noteq> Some CANDIDATE \<and>
   fst (promote (Node ''n1'' ''uuid'')) = Inr () \<and>
   timers (snd (promote (Node ''n1'' ''uuid''))) = Some {Heartbeat, Election}"
proof -
  have 3: "Election \<in> {Heartbeat, Election} \<longrightarrow> state (candidate [''a'', ''b'']) = Some CANDIDATE"
    by (simp add: candidate_fields)
  have 4: "state (run [Packet (JObject voted_yes)] (candidate [''a'', ''b''])) = Some LEADER"
    "timers (run [Packet (JObject voted_yes)] (candidate [''a'', ''b''])) = Some {Heartbeat}"
    by (simp_all add: candidate_def voted_yes_def eval_defs)
  have 5: "listening (Node ''n1'' ''uuid'')" "timers (Node ''n1'' ''uuid'') = Some {}"
    "state (Node ''n1'' ''uuid'') \<noteq> Some CANDIDATE"
    "Election \<in> {} \<longrightarrow> state (Node ''n1'' ''uuid'') = Some CANDIDATE"
    by (simp_all add: Node_def)
  show ?thesis
    using election_timer_only_for_candidate [OF candidate_fields(1,2) 3,
            of "[Packet (JObject voted_yes)]" LEADER None "Some ''n1''"]
      election_timer_only_for_candidate [OF 5(1,2,4), of "[]" LEADER None None]
      candidate_fields 4 5
    by simp
qed

text \<open>
  C8 as stated fails on a freshly constructed node: when \<open>promote\<close> has returned, the
  heartbeat and the election timer are both pending.
\<close>

theorem both_timers_counterexample:
  "fst (promote (Node ''n1'' ''uuid'')) = Inr () \<and>
   timers (snd (promote (Node ''n1'' ''uuid''))) = Some {Heartbeat, Election}"
  by (simp add: eval_defs insert_commute)


section \<open>One vote per term\<close>

lemma granted_votes_append: "granted_votes (xs @ ys) = granted_votes xs @ granted_votes ys"
  by (induction xs rule: granted_votes.induct) simp_all

lemma gv_change: "granted_votes (log (snd (change c n))) = granted_votes (log n)"
  by (simp add: log_change granted_votes_append)

lemma vstep_refl: "vstep n n"
  by (simp add: vstep_def)

lemma vstep_same:
  "term m = term n \<Longrightarrow> votes_for m = votes_for n \<Longrightarrow>
   granted_votes (log m) = granted_votes (log n) \<Longrightarrow> vstep n m"
  by (simp add: vstep_def)

lemma vstep_cong:
  "term m = term n \<Longrightarrow> votes_for m = votes_for n \<Longrightarrow>
   granted_votes (log m) = granted_votes (log n) \<Longrightarrow> vstep m k \<Longrightarrow> vstep n k"
  by (simp add: vstep_def)

lemma vstep_bump:
  "term n < term m \<Longrightarrow> granted_votes (log m) = granted_votes (log n) \<Longrightarrow> vstep m k \<Longrightarrow> vstep n k"
  by (auto simp add: vstep_def)

lemma vstep_up:
  "term n < term m \<Longrightarrow> granted_votes (log m) = granted_votes (log n) \<Longrightarrow> vstep n m"
  by (simp add: vstep_def)

lemma gv_refuse: "granted_votes (log (snd (refuse d n))) = granted_votes (log n)"
  by (simp add: snd_refuse granted_votes_append split: slot.splits)

lemma gv_grant: "granted_votes (log (snd (grant d n))) = granted_votes (log n) @ [d]"
  by (simp add: snd_grant granted_votes_append split: slot.splits)

lemma fields_refuse:
  "term (snd (refuse d n)) = term n" "votes_for (snd (refuse d n)) = votes_for n"
  by (simp_all add: snd_refuse)

lemma fields_grant:
  "term (snd (grant d n)) = term n" "votes_for (snd (grant d n)) = Some (p_name d)"
  by (simp_all add: snd_grant)

lemma vstep_incoming_vote: "vstep n (snd (incoming_vote d n))"
proof -
  consider "p_term d < term n" | "term n < p_term d"
    | "p_term d = term n" "truthy (votes_for n) \<and> votes_for n \<noteq> Some (p_name d)"
    | "p_term d = term n" "\<not> (truthy (votes_for n) \<and> votes_for n \<noteq> Some (p_name d))"
    by linarith
  then show ?thesis
  proof cases
    case 1
    then show ?thesis
      by (simp add: incoming_vote_def vstep_def gv_refuse fields_refuse)
  next
    case 2
    then show ?thesis
      by (simp add: incoming_vote_def vstep_def snd_andthen gv_grant fields_grant gv_change
          change_fields)
  next
    case 3
    then show ?thesis
      by (simp add: incoming_vote_def vstep_def gv_refuse fields_refuse)
  next
    case 4
    then show ?thesis
      by (auto simp add: incoming_vote_def vstep_def gv_grant fields_grant)
  qed
qed

lemma vstep_heartbeat: "vstep n (snd (heartbeat x n))"
  by (simp add: snd_heartbeat vstep_def)

lemma vstep_incoming_voted:
  assumes "p_term d = term n"
  shows "vstep n (snd (incoming_voted d n))"
proof -
  have "term (snd (incoming_voted d n)) = term n"
    using assms by (rule term_incoming_voted)
  moreover have "votes_for (snd (incoming_voted d n)) = votes_for n"
    using assms
    by (simp add: incoming_voted_def snd_andthen change_fields quorum_def Let_def term_changes_def
      split: option.splits)
  moreover have "granted_votes (log (snd (incoming_voted d n))) = granted_votes (log n)"
    using assms
    by (simp add: incoming_voted_def snd_andthen gv_change quorum_def Let_def
      split: option.splits)
  ultimately show ?thesis by (rule vstep_same)
qed

lemma vstep_dispatch: "p_term d = term n \<Longrightarrow> vstep n (snd (dispatch d n))"
  by (simp add: dispatch_def vstep_heartbeat vstep_incoming_vote vstep_incoming_voted vstep_refl)

lemma vstep_recognise:
  assumes "p_term d = term n"
  shows "vstep n (snd (recognise d n))"
proof (cases "p_state d = Some LEADER \<and> state n \<noteq> Some FOLLOWER")
  case False
  then show ?thesis using assms by (auto simp add: recognise_def vstep_dispatch)
next
  case True
  let ?m = "snd (change \<lparr>c_term = None, c_leader = None, c_state = Some FOLLOWER\<rparr> n)"
  have m: "term ?m = term n" "votes_for ?m = votes_for n"
    "granted_votes (log ?m) = granted_votes (log n)"
    by (simp_all add: change_fields gv_change term_changes_def)
  have "vstep n ?m" using m by (rule vstep_same)
  moreover have "vstep n (snd (dispatch d ?m))"
    using m vstep_dispatch [of d ?m] assms by (auto intro: vstep_cong)
  ultimately show ?thesis using True by (simp add: recognise_def snd_andthen)
qed

lemma vstep_incoming: "vstep n (snd (incoming v n))"
proof (cases v)
  case (JObject d)
  consider "p_term d > term n" | "p_term d < term n" | "p_term d = term n" by linarith
  then show ?thesis
  proof cases
    case 1
    let ?m = "snd (change \<lparr>c_term = Some (p_term d), c_leader = None, c_state = Some FOLLOWER\<rparr> n)"
    have m: "term n < term ?m" "granted_votes (log ?m) = granted_votes (log n)"
      using 1 by (simp_all add: change_fields gv_change)
    have t: "p_term d = term ?m" by (simp add: change_fields)
    have "vstep n ?m" using m by (rule vstep_up)
    moreover have "vstep n (snd (recognise d ?m))"
      using m vstep_recognise [OF t] by (rule vstep_bump)
    ultimately show ?thesis using 1 JObject by (simp add: incoming_def snd_andthen)
  next
    case 2
    then show ?thesis using JObject by (simp add: incoming_def vstep_refl)
  next
    case 3
    then show ?thesis using JObject by (simp add: incoming_def vstep_recognise)
  qed
qed (simp_all add: incoming_def vstep_refl)

lemma vstep_promote: "vstep n (snd (promote n))"
proof -
  have "granted_votes (log (snd (promote n))) = granted_votes (log n)"
    by (simp add: promote_def snd_andthen gv_change tick_setTimeout_def Let_def
        split: option.splits)
  then show ?thesis
    by (auto simp add: vstep_def term_promote js_inc_ge)
qed

lemma vstep_expire: "vstep n (snd (expire t n))"
proof (cases "timers n")
  case None
  then show ?thesis by (simp add: expire_def vstep_refl)
next
  case (Some ts)
  show ?thesis
  proof (cases "t \<in> ts")
    case False
    then show ?thesis using Some by (simp add: expire_def tick_active_def vstep_refl)
  next
    case True
    let ?m = "n\<lparr>timers := Some (ts - {t})\<rparr>"
    have p: "vstep n (snd (promote k))"
      if "term k = term n" "votes_for k = votes_for n"
         "granted_votes (log k) = granted_votes (log n)" for k
      using that vstep_promote [of k] by (rule vstep_cong)
    have 1: "vstep n (snd (promote ?m))" by (rule p) simp_all
    have 2: "vstep n (snd (promote (observe HeartbeatTimeout ?m)))"
      by (rule p) (simp_all add: observe_def granted_votes_append)
    have 3: "vstep n (snd (broadcast ''heartbeat'' None ?m))"
      by (simp add: broadcast_def vstep_def)
    show ?thesis
      using True Some 1 2 3
      by (cases t) (simp_all add: expire_def tick_active_def heartbeat_expired_def Let_def)
  qed
qed

lemma vstep_step: "vstep n (step i n)"
  by (cases i) (simp_all add: step_def snd_call_read vstep_incoming vstep_refl vstep_expire)

lemma vote_inv_step:
  assumes "vote_inv n" and "vstep n m"
  shows "vote_inv m"
proof -
  have old: "p_term g \<le> term n"
    "p_term g = term n \<Longrightarrow> p_name g \<noteq> [] \<Longrightarrow> js_inc (p_term g) \<noteq> p_term g
       \<Longrightarrow> votes_for n = Some (p_name g)"
    if "g \<in> set (granted_votes (log n))" for g
    using assms(1) that by (auto simp: vote_inv_def)
  have uniq: "p_name a = p_name b"
    if "a \<in> set (granted_votes (log n))" "b \<in> set (granted_votes (log n))"
       "p_term a = p_term b" "p_name a \<noteq> []" "p_name b \<noteq> []" "js_inc (p_term a) \<noteq> p_term a"
    for a b
    using assms(1) that unfolding vote_inv_def by blast
  have mono: "term n \<le> term m"
    using assms(2) by (simp add: vstep_def)
  have keep: "votes_for m = votes_for n"
    if "term m = term n" "truthy (votes_for n)" "js_inc (term n) \<noteq> term n"
    using assms(2) that by (simp add: vstep_def)
  have new: "g \<in> set (granted_votes (log n)) \<or> (p_term g = term m \<and> votes_for m = Some (p_name g))"
    if "g \<in> set (granted_votes (log m))" for g
    using assms(2) that by (auto simp: vstep_def)
  have cur: "p_term g \<le> term m"
    "p_term g = term m \<Longrightarrow> p_name g \<noteq> [] \<Longrightarrow> js_inc (p_term g) \<noteq> p_term g
       \<Longrightarrow> votes_for m = Some (p_name g)"
    if g: "g \<in> set (granted_votes (log m))" for g
  proof -
    show "p_term g \<le> term m"
      using new [OF g] old(1) [of g] mono by auto
    assume e: "p_term g = term m" and ne: "p_name g \<noteq> []"
      and x: "js_inc (p_term g) \<noteq> p_term g"
    show "votes_for m = Some (p_name g)"
    proof (cases "g \<in> set (granted_votes (log n))")
      case True
      have tm: "term m = term n" using old(1) [OF True] e mono by simp
      have "votes_for n = Some (p_name g)"
        using old(2) [OF True] e ne x tm by simp
      moreover have "js_inc (term n) \<noteq> term n" using x e tm by simp
      ultimately show ?thesis using keep tm ne by (simp add: truthy_def)
    next
      case False
      then show ?thesis using new [OF g] by simp
    qed
  qed
  have "p_name a = p_name b"
    if a: "a \<in> set (granted_votes (log m))" and b: "b \<in> set (granted_votes (log m))"
       and e: "p_term a = p_term b" and na: "p_name a \<noteq> []" and nb: "p_name b \<noteq> []"
       and x: "js_inc (p_term a) \<noteq> p_term a" for a b
  proof (cases "a \<in> set (granted_votes (log n)) \<and> b \<in> set (granted_votes (log n))")
    case True
    then show ?thesis using uniq e na nb x by blast
  next
    case False
    then have "p_term a = term m \<or> p_term b = term m"
      using new [OF a] new [OF b] by auto
    then have "p_term a = term m" "p_term b = term m" using e by auto
    then have "votes_for m = Some (p_name a)" "votes_for m = Some (p_name b)"
      using cur(2) [OF a] cur(2) [OF b] na nb x e by auto
    then show ?thesis by simp
  qed
  then show ?thesis using cur unfolding vote_inv_def by blast
qed

lemma vote_inv_run: "vote_inv n \<Longrightarrow> vote_inv (run is n)"
  by (induction "is" arbitrary: n) (auto intro: vote_inv_step vstep_step)

lemma steady_refl: "steady n n"
  by (simp add: steady_def)

lemma steady_trans: "steady n m \<Longrightarrow> steady m k \<Longrightarrow> steady n k"
  by (simp add: steady_def)

lemma steady_andthen:
  "steady n (snd r) \<Longrightarrow> (\<And>m. steady m (snd (f m))) \<Longrightarrow> steady n (snd (andthen r f))"
  by (auto simp: snd_andthen intro: steady_trans)

lemma steady_change: "steady n (snd (change c n))"
  by (simp add: steady_def change_fields split: option.splits)

lemma steady_heartbeat: "steady n (snd (heartbeat x n))"
  by (simp add: steady_def snd_heartbeat)

lemma steady_refuse: "steady n (snd (refuse d n))"
  by (simp add: steady_def snd_refuse)

lemma steady_grant: "steady n (snd (grant d n))"
  by (simp add: steady_def snd_grant)

lemma steady_incoming_vote: "steady n (snd (incoming_vote d n))"
  by (simp add: incoming_vote_def steady_refuse steady_grant steady_andthen steady_change)

lemma steady_incoming_voted: "steady n (snd (incoming_voted d n))"
  by (simp add: steady_def incoming_voted_def snd_andthen change_fields quorum_def Let_def
      split: option.splits)

lemma steady_dispatch: "steady n (snd (dispatch d n))"
  by (simp add: dispatch_def steady_heartbeat steady_incoming_vote steady_incoming_voted steady_refl)

lemma steady_recognise: "steady n (snd (recognise d n))"
  by (simp add: recognise_def steady_dispatch steady_andthen steady_change)

lemma steady_incoming: "steady n (snd (incoming v n))"
  by (cases v)
     (simp_all add: incoming_def steady_recognise steady_andthen steady_change steady_refl)

lemma steady_promote: "steady n (snd (promote n))"
proof -
  have "steady m (snd (let n2 = m\<lparr>votes_for := Some (name m), votes_granted := 1\<rparr>
          in (case timers n2 of
                None \<Rightarrow> (Inl TypeError, n2)
              | Some ts \<Rightarrow>
                  (case tick_setTimeout Election ts of
                     Inl e \<Rightarrow> (Inl e, n2)
                   | Inr ts' \<Rightarrow> (Inr (), n2\<lparr>timers := Some ts'\<rparr>)))))" for m
    by (simp add: steady_def tick_setTimeout_def Let_def split: option.splits)
  then show ?thesis
    unfolding promote_def by (intro steady_andthen steady_change)
qed

lemma steady_expire: "steady n (snd (expire t n))"
proof -
  have 1: "steady (m\<lparr>timers := Some x\<rparr>) k \<Longrightarrow> timers m = Some y \<Longrightarrow> steady m k" for m x y k
    by (simp add: steady_def)
  have 2: "steady (observe e m) k \<Longrightarrow> steady m k" for m e k
    by (simp add: steady_def observe_def)
  have 3: "steady m (snd (heartbeat_expired m))" for m
    by (auto simp: heartbeat_expired_def broadcast_def steady_refl intro: 2 steady_promote)
  show ?thesis
    by (cases t)
       (auto simp: expire_def Let_def steady_refl split: option.splits intro: 1 3 steady_promote)
qed

lemma steady_step: "steady n (step i n)"
  by (cases i) (simp_all add: step_def snd_call_read steady_incoming steady_refl steady_expire)

lemma steady_run: "steady n (run is n)"
  by (induction "is" arbitrary: n) (auto intro: steady_refl steady_trans steady_step)

lemma live_run: "live n \<Longrightarrow> live (run is n)"
  using steady_run [of n "is"] by (simp add: live_def steady_def)

lemma refused_next:
  assumes "live m" and "p_type b = ''vote''" and "p_term b = term m"
    and "votes_for m = Some x" and "x \<noteq> []" and "p_name b \<noteq> x"
  shows "fst (call_read (JObject b) m) = Inr True \<and>
         votes_for (snd (call_read (JObject b) m)) = Some x \<and>
         log (snd (call_read (JObject b) m)) =
           log m @ (if p_state b = Some LEADER \<and> state m \<noteq> Some FOLLOWER
                    then [StateChange (Some FOLLOWER) (state m)] else [])
                 @ [VoteEvent b False, WriteCall ''vote'' \<lparr>granted = False\<rparr>]"
proof -
  have r: "refuse b k = (Inr (), k\<lparr>log := log k @ [VoteEvent b False, WriteCall ''vote'' \<lparr>granted = False\<rparr>]\<rparr>)"
    if "write_slot k = Inherited" for k
    using that by (simp add: refuse_def call_write_def write_def observe_def)
  have d: "dispatch b k = (Inr (), k\<lparr>log := log k @ [VoteEvent b False, WriteCall ''vote'' \<lparr>granted = False\<rparr>]\<rparr>)"
    if "write_slot k = Inherited" "term k = term m" "votes_for k = Some x" for k
    using that assms r [of k] by (simp add: dispatch_def incoming_vote_def truthy_def)
  have l: "listening m" "read_slot m = Inherited" "write_slot m = Inherited" "timers m \<noteq> None"
    using assms(1) by (simp_all add: live_def)
  show ?thesis
  proof (cases "p_state b = Some LEADER \<and> state m \<noteq> Some FOLLOWER")
    case False
    then show ?thesis
      using assms l d [of m]
      by (auto simp: call_read_def read_def incoming_def recognise_def)
  next
    case True
    let ?c = "\<lparr>c_term = None, c_leader = None, c_state = Some FOLLOWER\<rparr>"
    have "\<not> isl (fst (change ?c m))" using l by (simp add: change_fields)
    then obtain k where k: "change ?c m = (Inr (), k)"
      by (cases "change ?c m"; cases "fst (change ?c m)") auto
    then have s: "snd (change ?c m) = k" by simp
    have ns: "Some FOLLOWER \<noteq> state m" using True by auto
    have kf: "write_slot k = Inherited" "term k = term m" "votes_for k = Some x"
      "log k = log m @ [StateChange (Some FOLLOWER) (state m)]"
      using s [symmetric] l assms True ns
      by (simp_all add: change_fields log_change term_changes_def leader_changes_def
          state_changes_def)
    show ?thesis
      using True assms l k d [OF kf(1-3)] kf
      by (simp add: call_read_def read_def incoming_def recognise_def)
  qed
qed

text \<open>
  C4, as the code has it. Take a live node whose log holds no granted solicitation, any
  run of inputs, and a solicitation \<open>a\<close> that the node granted in that run, with a non-empty
  name and a term from 0 to below \<open>2^53\<close>, where adding 1 to the term is exact. For every
  vote solicitation \<open>b\<close> of the same term from a different name: if the name of \<open>b\<close> is
  non-empty, \<open>b\<close> was not granted in the run; and while the node is still in that term,
  \<open>read\<close> of \<open>b\<close> returns true, emits the \<open>'vote'\<close> event with \<open>false\<close> and writes
  \<open>{granted: false}\<close> (after the \<open>'state change'\<close> event, when \<open>b\<close> demotes the node), and
  the vote stays with \<open>a\<close>.
\<close>

theorem vote_once_per_term:
  assumes "live n" and "granted_votes (log n) = []"
    and "a \<in> set (granted_votes (log (run is n)))" and "p_name a \<noteq> []"
    and "0 \<le> p_term a" and "p_term a < 2 ^ 53"
    and "p_type b = ''vote''" and "p_term b = p_term a" and "p_name b \<noteq> p_name a"
  shows "(p_name b \<noteq> [] \<longrightarrow> b \<notin> set (granted_votes (log (run is n)))) \<and>
         (term (run is n) = p_term a \<longrightarrow>
            fst (call_read (JObject b) (run is n)) = Inr True \<and>
            votes_for (snd (call_read (JObject b) (run is n))) = Some (p_name a) \<and>
            log (snd (call_read (JObject b) (run is n))) =
              log (run is n)
                @ (if p_state b = Some LEADER \<and> state (run is n) \<noteq> Some FOLLOWER
                   then [StateChange (Some FOLLOWER) (state (run is n))] else [])
                @ [VoteEvent b False, WriteCall ''vote'' \<lparr>granted = False\<rparr>])"
proof -
  let ?m = "run is n"
  have x: "js_inc (p_term a) \<noteq> p_term a"
    using assms(5,6) by (simp add: js_inc_def)
  have "vote_inv n" using assms(2) by (simp add: vote_inv_def)
  then have inv: "vote_inv ?m" by (rule vote_inv_run)
  have 1: "b \<notin> set (granted_votes (log ?m))" if "p_name b \<noteq> []"
  proof
    assume "b \<in> set (granted_votes (log ?m))"
    then have "p_name a = p_name b"
      using inv assms(3,4,8) that x unfolding vote_inv_def by metis
    then show False using assms(9) by simp
  qed
  have 2: "votes_for ?m = Some (p_name a)" if "term ?m = p_term a"
    using inv assms(3,4) that x unfolding vote_inv_def by metis
  have "live ?m" using assms(1) by (rule live_run)
  then show ?thesis
    using 1 2 refused_next [of ?m b "p_name a"] assms(4,7-9) by auto
qed

lemma two_votes_run:
  "run two_votes (Node ''n1'' ''uuid'') =
     (Node ''n1'' ''uuid'')\<lparr>term := 4, votes_for := Some ''A'',
        log := [TermChange 4 0, VoteEvent (vote_from ''A'') True, WriteCall ''vote'' \<lparr>granted = True\<rparr>,
                VoteEvent (vote_from ''B'') False, WriteCall ''vote'' \<lparr>granted = False\<rparr>]\<rparr>"
  by (simp add: two_votes_def vote_from_def eval_defs)

theorem vote_once_per_term_witness:
  "live (Node ''n1'' ''uuid'') \<and> granted_votes (log (Node ''n1'' ''uuid'')) = [] \<and>
   vote_from ''A'' \<in> set (granted_votes (log (run two_votes (Node ''n1'' ''uuid'')))) \<and>
   p_name (vote_from ''A'') \<noteq> [] \<and>
   0 \<le> p_term (vote_from ''A'') \<and> p_term (vote_from ''A'') < 2 ^ 53 \<and>
   p_type (vote_from ''B'') = ''vote'' \<and>
   p_term (vote_from ''B'') = p_term (vote_from ''A'') \<and>
   p_name (vote_from ''B'') \<noteq> p_name (vote_from ''A'') \<and> p_name (vote_from ''B'') \<noteq> [] \<and>
   term (run two_votes (Node ''n1'' ''uuid'')) = p_term (vote_from ''A'') \<and>
   vote_from ''B'' \<notin> set (granted_votes (log (run two_votes (Node ''n1'' ''uuid'')))) \<and>
   fst (call_read (JObject (vote_from ''B'')) (run two_votes (Node ''n1'' ''uuid''))) = Inr True \<and>
   log (snd (call_read (JObject (vote_from ''B'')) (run two_votes (Node ''n1'' ''uuid'')))) =
     log (run two_votes (Node ''n1'' ''uuid''))
       @ [VoteEvent (vote_from ''B'') False, WriteCall ''vote'' \<lparr>granted = False\<rparr>]"
proof -
  have 1: "live (Node ''n1'' ''uuid'')" by (simp add: live_def Node_def)
  have 2: "granted_votes (log (Node ''n1'' ''uuid'')) = []" by (simp add: Node_def)
  have 3: "vote_from ''A'' \<in> set (granted_votes (log (run two_votes (Node ''n1'' ''uuid''))))"
    by (simp add: two_votes_run)
  have 4: "p_name (vote_from ''A'') \<noteq> []"
    "0 \<le> p_term (vote_from ''A'')" "p_term (vote_from ''A'') < 2 ^ 53"
    "p_type (vote_from ''B'') = ''vote''"
    "p_term (vote_from ''B'') = p_term (vote_from ''A'')"
    "p_name (vote_from ''B'') \<noteq> p_name (vote_from ''A'')" "p_name (vote_from ''B'') \<noteq> []"
    by (simp_all add: vote_from_def)
  have 5: "term (run two_votes (Node ''n1'' ''uuid'')) = p_term (vote_from ''A'')"
    "state (run two_votes (Node ''n1'' ''uuid'')) = Some FOLLOWER"
    unfolding two_votes_run by (simp_all add: vote_from_def Node_def)
  show ?thesis
    using vote_once_per_term [OF 1 2 3 4(1-6)] 1 2 3 4 5 by simp
qed

text \<open>
  C4 as stated fails in two ways. When the candidate granted first has the empty string as
  its name, \<open>this.votes.for\<close> is falsy and the solicitation of the same term from \<open>B\<close> is
  granted as well. And at term \<open>2^53\<close>, where \<open>this.term + 1\<close> is \<open>this.term\<close>: a node that
  has granted \<open>A\<close> its vote and then promotes itself stays in the term, emits no
  \<open>'term change'\<close> and votes for itself, so a solicitation of that term under the node's own
  name is granted too.
\<close>

theorem two_grants_counterexample:
  "p_name (vote_from []) \<noteq> p_name (vote_from ''B'') \<and>
   p_term (vote_from []) = p_term (vote_from ''B'') \<and>
   log (run [Packet (JObject (vote_from [])), Packet (JObject (vote_from ''B''))]
          (Node ''n1'' ''uuid'')) =
     [TermChange 4 0,
      VoteEvent (vote_from []) True, WriteCall ''vote'' \<lparr>granted = True\<rparr>,
      VoteEvent (vote_from ''B'') True, WriteCall ''vote'' \<lparr>granted = True\<rparr>] \<and>
   log (run [Packet (JObject (big_vote ''A'')), Timeout Heartbeat, Packet (JObject (big_vote ''n1''))]
          (snd (call_read (JObject big_heartbeat) (Node ''n1'' ''uuid'')))) =
     [TermChange (2 ^ 53) 0,
      VoteEvent (big_vote ''A'') True, WriteCall ''vote'' \<lparr>granted = True\<rparr>,
      HeartbeatTimeout, LeaderChange (Some []) None, StateChange (Some CANDIDATE) (Some FOLLOWER),
      VoteEvent (big_vote ''n1'') True, WriteCall ''vote'' \<lparr>granted = True\<rparr>]"
  by (simp add: vote_from_def big_vote_def big_heartbeat_def eval_defs)

end
